theory Spec2Isabelle
  imports Main "HOL-Library.Word"
begin

unbundle bit_operations_syntax

section \<open>Failures\<close>

text \<open>
  Every way the allocator stops instead of returning is a value of \<open>error\<close>:
  a failed \<open>assert\<close> (common.h), a dereference of a null block pointer,
  \<open>std::abort()\<close> in the large heap, a ticket lock that is never served (the model
  is sequential, so a held lock spins forever), an array index past its bound,
  a division by zero, a loop that does not end, and a call that does not compile.
\<close>

datatype error =
  AssertFail | NullDeref | Abort | Deadlock | OutOfBounds | DivByZero | NonTermination
  | IllFormedCall

definition ebind :: "error + 'a \<Rightarrow> ('a \<Rightarrow> error + 'b) \<Rightarrow> error + 'b" where
  "ebind m f = (case m of Inl e \<Rightarrow> Inl e | Inr x \<Rightarrow> f x)"

section \<open>mutex.h: the ticket lock\<close>

text \<open>
  \<open>tlock\<close> is one 32-bit word; its low 16 bits are the next ticket and its high 16
  bits the ticket being served. The record keeps the two halves apart:
  \<open>ticket_lock\<close> adds one to the low half (the carry is masked off),
  \<open>ticket_unlock\<close> adds \<open>1 << 16\<close>, that is one to the high half (the carry
  leaves the word). A caller whose ticket is not served spins; with one thread
  of control nobody else unlocks, so that is \<open>Deadlock\<close>.
\<close>

record mutex =
  next_ticket :: "16 word"
  serving :: "16 word"

definition ticket_init :: mutex where
  "ticket_init = \<lparr>next_ticket = 0, serving = 0\<rparr>"

definition ticket_lock :: "mutex \<Rightarrow> error + mutex" where
  "ticket_lock m =
     (let ticket = next_ticket m;
          m' = m\<lparr>next_ticket := next_ticket m + 1\<rparr>
      in if serving m' = ticket then Inr m' else Inl Deadlock)"

definition ticket_unlock :: "mutex \<Rightarrow> mutex" where
  "ticket_unlock m = m\<lparr>serving := serving m + 1\<rparr>"

definition mutex_free :: "mutex \<Rightarrow> bool" where
  "mutex_free m = (serving m = next_ticket m)"

section \<open>blocked_deque.h\<close>

text \<open>
  A block holds \<open>DQBLOCK_SIZE\<close> slots. A value of the element type \<open>T\<close> is
  modelled as \<open>'a option\<close>: \<open>Some v\<close> is the value \<open>v\<close>, \<open>None\<close> is the
  indeterminate content of a slot that was never written (blocks come from
  \<open>sim_zero_cycle_untracked_malloc\<close> and are not cleared).

  The doubly linked chain \<open>bhead \<dots> btail\<close> is the list \<open>blocks\<close>:
  \<open>bhead\<close> is its first block, \<open>btail\<close> its last, both are null when the list
  is empty, \<open>bhead == btail\<close> when it has at most one block. A block handed back
  with \<open>DequeBlock::dealloc\<close> leaves the list. \<open>phead\<close> and \<open>ptail\<close> are
  \<open>uint64_t\<close> and wrap.
\<close>

type_synonym 'a DequeBlock = "nat \<Rightarrow> 'a option"

definition DequeBlock_alloc :: "'a DequeBlock" where
  "DequeBlock_alloc = (\<lambda>i. None)"

definition DQBLOCK_SIZE :: "64 word" where
  "DQBLOCK_SIZE = 32"

definition DQBLOCK_MASK :: "64 word" where
  "DQBLOCK_MASK = DQBLOCK_SIZE - 1"

record 'a BlockedDeque =
  blocks :: "'a DequeBlock list"
  phead :: "64 word"
  ptail :: "64 word"

definition slot :: "64 word \<Rightarrow> nat" where
  "slot p = unat (p AND DQBLOCK_MASK)"

definition aligned :: "64 word \<Rightarrow> bool" where
  "aligned p = (p AND DQBLOCK_MASK = 0)"

definition expand :: "bool \<Rightarrow> 'a BlockedDeque \<Rightarrow> 'a BlockedDeque" where
  "expand head d =
     (if blocks d = [] then d\<lparr>blocks := [DequeBlock_alloc]\<rparr>
      else if head then d\<lparr>blocks := DequeBlock_alloc # blocks d\<rparr>
      else d\<lparr>blocks := blocks d @ [DequeBlock_alloc]\<rparr>)"

definition shrink :: "bool \<Rightarrow> 'a BlockedDeque \<Rightarrow> error + 'a BlockedDeque" where
  "shrink head d =
     (if blocks d = [] then Inl AssertFail
      else Inr (d\<lparr>blocks := (if head then tl (blocks d) else butlast (blocks d))\<rparr>))"

definition init :: "'a BlockedDeque" where
  "init = \<lparr>blocks = [], phead = 0, ptail = 0\<rparr>"

definition reset :: "'a BlockedDeque \<Rightarrow> error + 'a BlockedDeque" where
  "reset d =
     (if phead d \<noteq> ptail d then Inl AssertFail
      else if 1 < length (blocks d) then Inl AssertFail
      else Inr init)"

definition size_dq :: "'a BlockedDeque \<Rightarrow> 64 word" where
  "size_dq d = ptail d - phead d"

definition empty_dq :: "'a BlockedDeque \<Rightarrow> bool" where
  "empty_dq d = (blocks d = [])"

definition push_front :: "'a BlockedDeque \<Rightarrow> 'a option \<Rightarrow> error + 'a BlockedDeque" where
  "push_front d val =
     (let d1 = (if aligned (phead d) then expand True d else d);
          ph = phead d1 - 1
      in case blocks d1 of
           [] \<Rightarrow> Inl NullDeref
         | b # bs \<Rightarrow> Inr (d1\<lparr>blocks := b(slot ph := val) # bs, phead := ph\<rparr>))"

definition push_back :: "'a BlockedDeque \<Rightarrow> 'a option \<Rightarrow> error + 'a BlockedDeque" where
  "push_back d val =
     (let d1 = (if aligned (ptail d) then expand False d else d)
      in if blocks d1 = [] then Inl NullDeref
         else Inr (d1\<lparr>blocks := butlast (blocks d1) @ [(last (blocks d1))(slot (ptail d1) := val)],
                       ptail := ptail d1 + 1\<rparr>))"

definition front :: "'a BlockedDeque \<Rightarrow> error + 'a option" where
  "front d = (case blocks d of [] \<Rightarrow> Inl NullDeref | b # bs \<Rightarrow> Inr (b (slot (phead d))))"

definition back_dq :: "'a BlockedDeque \<Rightarrow> error + 'a option" where
  "back_dq d =
     (if blocks d = [] then Inl NullDeref
      else Inr ((last (blocks d)) (slot (ptail d - 1))))"

definition pop_front :: "'a BlockedDeque \<Rightarrow> error + 'a BlockedDeque" where
  "pop_front d =
     (if empty_dq d then Inl AssertFail
      else let d1 = d\<lparr>phead := phead d + 1\<rparr>
           in if phead d1 = ptail d1 then reset d1
              else if aligned (phead d1) then shrink True d1
              else Inr d1)"

definition pop_back :: "'a BlockedDeque \<Rightarrow> error + 'a BlockedDeque" where
  "pop_back d =
     (if empty_dq d then Inl AssertFail
      else let d1 = d\<lparr>ptail := ptail d - 1\<rparr>
           in if phead d1 = ptail d1 then reset d1
              else if aligned (ptail d1) then shrink False d1
              else Inr d1)"

definition dequeue_back :: "'a BlockedDeque \<Rightarrow> error + ('a option \<times> 'a BlockedDeque)" where
  "dequeue_back d =
     (if blocks d = [] then Inl NullDeref
      else let d1 = d\<lparr>ptail := ptail d - 1\<rparr>;
               res = (last (blocks d)) (slot (ptail d1))
           in if aligned (ptail d1)
              then ebind (if length (blocks d1) \<le> 1 then reset d1 else shrink False d1)
                     (\<lambda>d2. Inr (res, d2))
              else Inr (res, d1))"

text \<open>
  \<open>walk k p\<close> follows \<open>next\<close> from the block \<open>p\<close> points at \<open>k\<close> times; a
  pointer into the chain is the rest of the list from that block on, null is
  the empty rest. The loop of \<open>splice_front\<close> runs for \<open>b = 1 \<dots> blocks - 1\<close>,
  so \<open>blocks - 1\<close> times, and not at all when \<open>blocks\<close> is 0.
\<close>

primrec walk :: "nat \<Rightarrow> 'b list \<Rightarrow> error + 'b list" where
  "walk 0 p = Inr p"
| "walk (Suc k) p = (case p of [] \<Rightarrow> Inl NullDeref | b # bs \<Rightarrow> walk k bs)"

text \<open>\<open>splice_front\<close> returns the spliced deque and what is left of this one.\<close>

definition splice_front ::
  "'a BlockedDeque \<Rightarrow> 64 word \<Rightarrow> error + ('a BlockedDeque \<times> 'a BlockedDeque)" where
  "splice_front d blks =
     (if \<not> aligned (phead d) then Inl AssertFail
      else ebind (walk (unat blks - 1) (blocks d)) (\<lambda>splicePoint.
        if splicePoint = [] \<or> tl splicePoint = [] then Inl AssertFail
        else Inr (\<lparr>blocks = take (length (blocks d) - length (tl splicePoint)) (blocks d),
                    phead = 0, ptail = blks * DQBLOCK_SIZE\<rparr>,
                  d\<lparr>blocks := tl splicePoint, phead := phead d + blks * DQBLOCK_SIZE\<rparr>)))"

definition merge_front :: "'a BlockedDeque \<Rightarrow> 'a BlockedDeque \<Rightarrow> error + 'a BlockedDeque" where
  "merge_front d lst =
     (if empty_dq d then Inr lst
      else if \<not> aligned (phead d) then Inl AssertFail
      else if \<not> aligned (ptail lst) then Inl AssertFail
      else if blocks lst = [] then Inl NullDeref
      else Inr (d\<lparr>phead := phead d - size_dq lst, blocks := blocks lst @ blocks d\<rparr>))"

text \<open>
  \<open>steal_front\<close> overwrites the four fields of \<open>dstList\<close> whatever they were; it
  returns what is left of this deque and the new \<open>dstList\<close>.
\<close>

definition steal_front :: "'a BlockedDeque \<Rightarrow> 'a BlockedDeque \<times> 'a BlockedDeque" where
  "steal_front d =
     (let dstList = \<lparr>blocks = take 1 (blocks d), phead = 0, ptail = DQBLOCK_SIZE\<rparr>
      in if length (blocks d) \<le> 1 then (init, dstList)
         else (d\<lparr>blocks := tl (blocks d), phead := phead d + DQBLOCK_SIZE\<rparr>, dstList))"

section \<open>alloc.h: sizes, classes, pages\<close>

text \<open>
  \<open>size_t\<close> is \<open>64 word\<close>, \<open>uint32_t\<close> is \<open>32 word\<close>, \<open>uint8_t\<close> is
  \<open>8 word\<close>: their arithmetic wraps as the source's does. Addresses
  (\<open>char*\<close>, \<open>void*\<close>) are natural numbers and null is 0: the source checks
  no bound on the two regions (see its FIXME on \<open>trackedBound\<close>), and pointer
  arithmetic past the address space is undefined in C++, so the model lets
  addresses grow.
\<close>

definition trackedBase :: nat where
  "trackedBase = 0x0a8000000000"

definition untrackedBase :: nat where
  "untrackedBase = 0x0b8000000000"

definition kPageBits :: nat where
  "kPageBits = 15"

definition kPageSize :: "64 word" where
  "kPageSize = push_bit kPageBits 1"

definition sizeToPages :: "64 word \<Rightarrow> 64 word" where
  "sizeToPages sz = drop_bit kPageBits (sz + kPageSize - 1)"

definition kMaxClasses :: "64 word" where
  "kMaxClasses = 256"

definition sizeToClass :: "64 word \<Rightarrow> 64 word" where
  "sizeToClass sz = drop_bit 6 (sz + 63)"

definition classToSize :: "64 word \<Rightarrow> 64 word" where
  "classToSize cl = push_bit 6 cl"

definition isLargeAlloc :: "64 word \<Rightarrow> bool" where
  "isLargeAlloc sz = (kMaxClasses \<le> sizeToClass sz)"

definition kMaxThreads :: nat where
  "kMaxThreads = 2048"

definition kMaxThreadCacheSize :: "64 word" where
  "kMaxThreadCacheSize = 4096 * 1024"

definition kFetchTargetSize :: "64 word" where
  "kFetchTargetSize = 32 * 1024"

section \<open>The state: central_free_list.h, large_heap.h, alloc.h\<close>

record CentralFreeList =
  chunkSize :: "32 word"
  elemsPerFetch :: "32 word"
  freeChunks :: "nat BlockedDeque"
  bumpStart :: nat
  bumpEnd :: nat
  lock :: mutex

record ThreadCache =
  cacheSize :: "64 word"
  classLists_tc :: "nat \<Rightarrow> nat BlockedDeque"

text \<open>
  The two \<open>std::map\<close>s of the large heap are association lists in key order
  (\<open>std::prev\<close>, \<open>std::next\<close> and \<open>lower_bound\<close> depend on it). An
  \<open>unordered_set\<close> of chunk starts is a list without repetition, in the order
  the set iterates.
\<close>

record LargeHeap =
  freeChunkSets :: "(nat \<times> nat list) list"
  chunkSizes :: "(nat \<times> nat) list"
  lock_lh :: mutex

text \<open>
  \<open>AllocState\<close> is the struct \<open>gs\<close> of alloc.h; \<open>sizemap\<close> is the byte array
  that follows it in untracked memory, indexed by page number (an \<open>int\<close>, since
  a pointer below \<open>trackedBase\<close> gives a negative index), and \<open>initialized\<close> is
  the static \<open>__initialized\<close>.
\<close>

record AllocState =
  classLists :: "nat \<Rightarrow> CentralFreeList"
  largeHeap :: LargeHeap
  threadCaches :: "nat \<Rightarrow> ThreadCache"
  trackedBump :: nat
  trackedEnd :: nat
  sizemapBump :: nat
  sizemapEnd :: nat
  sysAllocLock :: mutex
  sizemap :: "int \<Rightarrow> 8 word"
  initialized :: bool

section \<open>alloc.h: initialization\<close>

text \<open>
  \<open>__plsalloc_init\<close> maps the untracked region afresh (\<open>MAP_ANONYMOUS\<close> memory
  is zero) and constructs the members in place. The constructors of
  \<open>CentralFreeList\<close> and \<open>ThreadCache\<close> do not touch their deques, and
  \<open>classLists[0]\<close> is not constructed at all: these keep the zero bytes of the
  mapping, which for a deque read as the empty deque \<open>init\<close>.
  \<open>sizeofAllocState\<close> stands for \<open>sizeof(AllocState)\<close>, which the compiler
  fixes. \<open>mmap\<close> with \<open>MAP_FIXED\<close> returns the address asked for or
  \<open>MAP_FAILED\<close>, neither of which is null, so \<open>exit(183)\<close> is never taken.
\<close>

definition zero_CentralFreeList :: CentralFreeList where
  "zero_CentralFreeList =
     \<lparr>chunkSize = 0, elemsPerFetch = 0, freeChunks = init, bumpStart = 0, bumpEnd = 0,
      lock = \<lparr>next_ticket = 0, serving = 0\<rparr>\<rparr>"

definition CentralFreeList_ctor :: "32 word \<Rightarrow> 32 word \<Rightarrow> CentralFreeList \<Rightarrow> CentralFreeList" where
  "CentralFreeList_ctor cs epf mem =
     mem\<lparr>chunkSize := cs, elemsPerFetch := epf, bumpStart := 0, bumpEnd := 0, lock := ticket_init\<rparr>"

definition ThreadCache_ctor :: "ThreadCache \<Rightarrow> ThreadCache" where
  "ThreadCache_ctor mem = mem\<lparr>cacheSize := 0\<rparr>"

definition LargeHeap_ctor :: LargeHeap where
  "LargeHeap_ctor = \<lparr>freeChunkSets = [], chunkSizes = [], lock_lh = ticket_init\<rparr>"

definition init_class :: "nat \<Rightarrow> (nat \<Rightarrow> CentralFreeList) \<Rightarrow> (nat \<Rightarrow> CentralFreeList)" where
  "init_class c cls =
     (let cl = (of_nat c :: 64 word);
          epf0 = (ucast (kFetchTargetSize div classToSize cl) :: 32 word);
          epf = min (ucast DQBLOCK_SIZE) (max epf0 2)
      in cls(c := CentralFreeList_ctor (ucast (classToSize cl)) epf (cls c)))"

definition plsalloc_init :: "nat \<Rightarrow> AllocState \<Rightarrow> AllocState" where
  "plsalloc_init sizeofAllocState gs =
     (if initialized gs then gs
      else let sz = ((sizeofAllocState + 2 * 1024 * 1024) div 2 ^ 21) * 2 ^ 21
           in \<lparr>classLists = fold init_class [1 ..< unat kMaxClasses] (\<lambda>c. zero_CentralFreeList),
               largeHeap = LargeHeap_ctor,
               threadCaches = (\<lambda>tid. ThreadCache_ctor \<lparr>cacheSize = 0, classLists_tc = (\<lambda>c. init)\<rparr>),
               trackedBump = trackedBase,
               trackedEnd = trackedBase,
               sizemapBump = untrackedBase + sizeofAllocState,
               sizemapEnd = untrackedBase + sz,
               sysAllocLock = ticket_init,
               sizemap = (\<lambda>i. 0),
               initialized = True\<rparr>)"

section \<open>alloc.h: the region provider\<close>

text \<open>
  \<open>allocContiguous\<close> returns the old bump pointer with the new bump and end
  pointers. \<open>mmap\<close> is taken to map what it is asked to.
\<close>

definition allocContiguous :: "64 word \<Rightarrow> nat \<Rightarrow> nat \<Rightarrow> error + (nat \<times> nat \<times> nat)" where
  "allocContiguous sz bump endp =
     (let alloc = bump; bump' = bump + unat sz
      in if endp < bump'
         then let mmapSz = ((bump' - endp) div 2 ^ 21 + 1) * 2 ^ 21;
                  endp' = endp + mmapSz
              in if endp' < bump' then Inl AssertFail else Inr (alloc, bump', endp')
         else Inr (alloc, bump', endp))"

text \<open>The loop that stamps \<open>pages\<close> entries of the sizemap from \<open>base\<close> on.\<close>

primrec stamp :: "(int \<Rightarrow> 8 word) \<Rightarrow> int \<Rightarrow> 8 word \<Rightarrow> nat \<Rightarrow> (int \<Rightarrow> 8 word)" where
  "stamp sm base cl 0 = sm"
| "stamp sm base cl (Suc page) = (stamp sm base cl page)(base + int page := cl)"

definition page_of :: "nat \<Rightarrow> int" where
  "page_of p = (int p - int trackedBase) div 2 ^ kPageBits"

definition sysAlloc :: "AllocState \<Rightarrow> 64 word \<Rightarrow> error + ((nat \<times> nat) \<times> AllocState)" where
  "sysAlloc gs chunkSz =
     (let minPages = sizeToPages chunkSz;
          pages = max 32 minPages;
          allocSize = push_bit kPageBits pages
      in if allocSize < chunkSz then Inl AssertFail
         else
           ebind (ticket_lock (sysAllocLock gs)) (\<lambda>l.
           ebind (allocContiguous allocSize (trackedBump gs) (trackedEnd gs)) (\<lambda>(alloc, tb, te).
           ebind (allocContiguous pages (sizemapBump gs) (sizemapEnd gs)) (\<lambda>(smAlloc, sb, se).
             let sm = (if \<not> isLargeAlloc chunkSz
                       then stamp (sizemap gs) (page_of alloc) (ucast (sizeToClass chunkSz)) (unat pages)
                       else sizemap gs)
             in Inr ((alloc, alloc + unat allocSize),
                     gs\<lparr>trackedBump := tb, trackedEnd := te, sizemapBump := sb, sizemapEnd := se,
                        sizemap := sm, sysAllocLock := ticket_unlock l\<rparr>)))))"

definition chunkToClass :: "AllocState \<Rightarrow> nat \<Rightarrow> 8 word" where
  "chunkToClass gs p = sizemap gs (page_of p)"

section \<open>central_free_list.h\<close>

text \<open>
  \<open>move_back n src dst\<close> is the loop that runs \<open>n\<close> times
  \<open>dst.push_back(src.dequeue_back())\<close>; it returns \<open>(src, dst)\<close>.
\<close>

primrec move_back ::
  "nat \<Rightarrow> 'a BlockedDeque \<Rightarrow> 'a BlockedDeque \<Rightarrow> error + ('a BlockedDeque \<times> 'a BlockedDeque)" where
  "move_back 0 src dst = Inr (src, dst)"
| "move_back (Suc n) src dst =
     ebind (dequeue_back src) (\<lambda>(v, src').
     ebind (push_back dst v) (\<lambda>dst'. move_back n src' dst'))"

text \<open>
  The loop \<open>for (cur = start; cur < end; cur += chunkSize) dstList.push_back(cur)\<close>.
  With \<open>chunkSize = 0\<close> and \<open>cur < end\<close> it would never end.
\<close>

function push_range :: "nat \<Rightarrow> nat \<Rightarrow> nat \<Rightarrow> nat BlockedDeque \<Rightarrow> error + nat BlockedDeque" where
  "push_range cur endp cs dstList =
     (if cur < endp
      then (if cs = 0 then Inl NonTermination
            else ebind (push_back dstList (Some cur)) (\<lambda>d. push_range (cur + cs) endp cs d))
      else Inr dstList)"
  by pat_completeness auto
termination
  by (relation "measure (\<lambda>(cur, endp, cs, dstList). endp - cur)") auto

definition CentralFreeList_alloc :: "AllocState \<Rightarrow> nat \<Rightarrow> error + (nat option \<times> AllocState)" where
  "CentralFreeList_alloc gs c =
     (let this = classLists gs c
      in ebind (ticket_lock (lock this)) (\<lambda>l.
         if \<not> empty_dq (freeChunks this)
         then ebind (dequeue_back (freeChunks this)) (\<lambda>(res, fc).
                Inr (res, gs\<lparr>classLists := (classLists gs)
                                (c := this\<lparr>freeChunks := fc, lock := ticket_unlock l\<rparr>)\<rparr>))
         else ebind (if bumpEnd this < bumpStart this + unat (chunkSize this)
                     then sysAlloc gs (ucast (chunkSize this))
                     else Inr ((bumpStart this, bumpEnd this), gs)) (\<lambda>((bs, be), gs1).
                let res = bs; bs' = bs + unat (chunkSize this)
                in if be < bs' then Inl AssertFail
                   else Inr (Some res, gs1\<lparr>classLists := (classLists gs1)
                          (c := this\<lparr>bumpStart := bs', bumpEnd := be, lock := ticket_unlock l\<rparr>)\<rparr>))))"

definition CentralFreeList_dealloc :: "CentralFreeList \<Rightarrow> nat \<Rightarrow> error + CentralFreeList" where
  "CentralFreeList_dealloc this p =
     ebind (ticket_lock (lock this)) (\<lambda>l.
     ebind (push_back (freeChunks this) (Some p)) (\<lambda>fc.
       Inr (this\<lparr>freeChunks := fc, lock := ticket_unlock l\<rparr>)))"

text \<open>
  \<open>bulkAlloc\<close> of \<open>gs.classLists[c]\<close>; it returns the filled \<open>dstList\<close> and the
  state. In the fall-through path \<open>end - start\<close> is never negative: either
  \<open>bumpStart + chunkSize <= bumpEnd\<close> held or both come from \<open>sysAlloc\<close>.
  \<open>chunkSize * elemsPerFetch\<close> is a product of two \<open>uint32_t\<close>.
\<close>

definition CentralFreeList_bulkAlloc ::
  "AllocState \<Rightarrow> nat \<Rightarrow> nat BlockedDeque \<Rightarrow> error + (nat BlockedDeque \<times> AllocState)" where
  "CentralFreeList_bulkAlloc gs c dstList =
     (let this = classLists gs c
      in ebind (ticket_lock (lock this)) (\<lambda>l.
         if ucast (elemsPerFetch this) \<le> size_dq (freeChunks this)
         then (if ucast DQBLOCK_SIZE \<le> elemsPerFetch this
               then (let (fc, dst) = steal_front (freeChunks this)
                     in Inr (dst, gs\<lparr>classLists := (classLists gs)
                               (c := this\<lparr>freeChunks := fc, lock := ticket_unlock l\<rparr>)\<rparr>))
               else ebind (move_back (unat (elemsPerFetch this)) (freeChunks this) dstList)
                      (\<lambda>(fc, dst).
                         Inr (dst, gs\<lparr>classLists := (classLists gs)
                               (c := this\<lparr>freeChunks := fc, lock := ticket_unlock l\<rparr>)\<rparr>)))
         else ebind (if bumpStart this + unat (chunkSize this) \<le> bumpEnd this
                     then Inr ((bumpStart this, bumpEnd this), gs)
                     else sysAlloc gs (ucast (chunkSize this))) (\<lambda>((start, endp), gs1).
                let fetch = unat (chunkSize this * elemsPerFetch this);
                    gs2 = gs1\<lparr>classLists := (classLists gs1)
                            (c := this\<lparr>bumpStart := start + fetch, bumpEnd := endp,
                                       lock := ticket_unlock l\<rparr>)\<rparr>
                in ebind (if fetch < endp - start then Inr (start + fetch)
                          else if chunkSize this = 0 then Inl DivByZero
                          else Inr (start + unat (chunkSize this)
                                      * ((endp - start) div unat (chunkSize this)))) (\<lambda>endp'.
                   ebind (push_range start endp' (unat (chunkSize this)) dstList) (\<lambda>dst.
                     Inr (dst, gs2))))))"

text \<open>\<open>bulkDealloc\<close> returns the central list and what is left of \<open>srcList\<close>.\<close>

definition CentralFreeList_bulkDealloc ::
  "CentralFreeList \<Rightarrow> nat BlockedDeque \<Rightarrow> 64 word \<Rightarrow> error + (CentralFreeList \<times> nat BlockedDeque)" where
  "CentralFreeList_bulkDealloc this srcList elems =
     (if DQBLOCK_SIZE \<le> elems
      then (let blks = elems div DQBLOCK_SIZE
            in ebind (splice_front srcList blks) (\<lambda>(spliced, src').
               ebind (ticket_lock (lock this)) (\<lambda>l.
               ebind (merge_front (freeChunks this) spliced) (\<lambda>fc.
                 Inr (this\<lparr>freeChunks := fc, lock := ticket_unlock l\<rparr>, src')))))
      else ebind (ticket_lock (lock this)) (\<lambda>l.
           ebind (move_back (unat elems) srcList (freeChunks this)) (\<lambda>(src', fc).
             Inr (this\<lparr>freeChunks := fc, lock := ticket_unlock l\<rparr>, src'))))"

text \<open>
  \<open>BankedCentralFreeList<NB>\<close>: \<open>rb()\<close> reads \<open>randVal\<close> from \<open>sim_rdrand\<close>.
  \<open>bulkDealloc\<close> forwards its arguments to the bank. The body of \<open>dealloc(p)\<close>
  is \<open>banks[rb()].dealloc()\<close>: it passes nothing on, and \<open>CentralFreeList\<close>
  has no \<open>dealloc\<close> without a parameter, so the member cannot be instantiated
  and no bank receives \<open>p\<close>.
\<close>

definition rb :: "nat \<Rightarrow> 64 word \<Rightarrow> nat" where
  "rb NB randVal = unat randVal mod NB"

definition BankedCentralFreeList_bulkDealloc ::
  "nat \<Rightarrow> (nat \<Rightarrow> CentralFreeList) \<Rightarrow> 64 word \<Rightarrow> nat BlockedDeque \<Rightarrow> 64 word
     \<Rightarrow> error + ((nat \<Rightarrow> CentralFreeList) \<times> nat BlockedDeque)" where
  "BankedCentralFreeList_bulkDealloc NB banks randVal srcList elems =
     ebind (CentralFreeList_bulkDealloc (banks (rb NB randVal)) srcList elems) (\<lambda>(b, src').
       Inr (banks(rb NB randVal := b), src'))"

definition BankedCentralFreeList_dealloc ::
  "nat \<Rightarrow> (nat \<Rightarrow> CentralFreeList) \<Rightarrow> 64 word \<Rightarrow> nat \<Rightarrow> error + (nat \<Rightarrow> CentralFreeList)" where
  "BankedCentralFreeList_dealloc NB banks randVal p = Inl IllFormedCall"

section \<open>alloc.h: the thread cache\<close>

text \<open>
  \<open>this\<close> is \<open>gs.threadCaches[tid]\<close>. \<open>classLists[cl]\<close> with \<open>cl\<close> past
  \<open>kMaxClasses\<close> is outside the array.
\<close>

definition ThreadCache_alloc ::
  "AllocState \<Rightarrow> nat \<Rightarrow> 64 word \<Rightarrow> error + (nat option \<times> AllocState)" where
  "ThreadCache_alloc gs tid cl =
     (if kMaxClasses \<le> cl then Inl OutOfBounds
      else let c = unat cl; tc = threadCaches gs tid
           in ebind (if empty_dq (classLists_tc tc c)
                     then ebind (CentralFreeList_bulkAlloc gs c (classLists_tc tc c)) (\<lambda>(dst, gs1).
                            Inr (tc\<lparr>classLists_tc := (classLists_tc tc)(c := dst),
                                    cacheSize := cacheSize tc + classToSize cl * size_dq dst\<rparr>, gs1))
                     else Inr (tc, gs)) (\<lambda>(tc1, gs1).
              ebind (dequeue_back (classLists_tc tc1 c)) (\<lambda>(res, d).
                Inr (res, gs1\<lparr>threadCaches := (threadCaches gs1)
                       (tid := tc1\<lparr>classLists_tc := (classLists_tc tc1)(c := d),
                                  cacheSize := cacheSize tc1 - classToSize cl\<rparr>)\<rparr>))))"

text \<open>One turn of the donation loop, for class \<open>c\<close>.\<close>

definition donate_class ::
  "nat \<Rightarrow> ThreadCache \<times> AllocState \<Rightarrow> error + (ThreadCache \<times> AllocState)" where
  "donate_class c s =
     (let tc = fst s; gs = snd s; elems = size_dq (classLists_tc tc c)
      in if elems = 0 then Inr (tc, gs)
         else let elemsToDonate = (elems + 1) div 2
              in ebind (CentralFreeList_bulkDealloc (classLists gs c) (classLists_tc tc c) elemsToDonate)
                   (\<lambda>(cfl, src).
                      Inr (tc\<lparr>classLists_tc := (classLists_tc tc)(c := src),
                              cacheSize := cacheSize tc
                                 - (elems - size_dq src) * classToSize (of_nat c)\<rparr>,
                           gs\<lparr>classLists := (classLists gs)(c := cfl)\<rparr>)))"

primrec donate :: "nat list \<Rightarrow> ThreadCache \<times> AllocState \<Rightarrow> error + (ThreadCache \<times> AllocState)" where
  "donate [] s = Inr s"
| "donate (c # cs) s = ebind (donate_class c s) (donate cs)"

definition ThreadCache_dealloc :: "AllocState \<Rightarrow> nat \<Rightarrow> nat \<Rightarrow> 64 word \<Rightarrow> error + AllocState" where
  "ThreadCache_dealloc gs tid p cl =
     (if kMaxClasses \<le> cl then Inl OutOfBounds
      else let c = unat cl; tc = threadCaches gs tid
           in ebind (push_back (classLists_tc tc c) (Some p)) (\<lambda>d.
              let tc1 = tc\<lparr>classLists_tc := (classLists_tc tc)(c := d),
                           cacheSize := cacheSize tc + classToSize cl\<rparr>
              in ebind (if kMaxThreadCacheSize < cacheSize tc1
                        then donate [1 ..< unat kMaxClasses] (tc1, gs)
                        else Inr (tc1, gs)) (\<lambda>(tc2, gs2).
                   Inr (gs2\<lparr>threadCaches := (threadCaches gs2)(tid := tc2)\<rparr>))))"

section \<open>large_heap.h\<close>

text \<open>
  The operations of \<open>std::map\<close> on an association list in key order:
  \<open>find\<close> is \<open>map_of\<close>, \<open>map_set\<close> is \<open>m[k] = v\<close>, \<open>map_erase\<close> is
  \<open>erase\<close>, \<open>lower_bound\<close> the first entry whose key is not below \<open>k\<close>,
  \<open>map_prev\<close> and \<open>map_next\<close> the entries before and after the key \<open>k\<close>
  (\<open>None\<close> at \<open>begin()\<close> and for \<open>end()\<close>).
\<close>

fun map_set :: "'k::linorder \<Rightarrow> 'v \<Rightarrow> ('k \<times> 'v) list \<Rightarrow> ('k \<times> 'v) list" where
  "map_set k v [] = [(k, v)]"
| "map_set k v ((k', v') # m) =
     (if k < k' then (k, v) # (k', v') # m
      else if k = k' then (k, v) # m
      else (k', v') # map_set k v m)"

definition map_erase :: "'k \<Rightarrow> ('k \<times> 'v) list \<Rightarrow> ('k \<times> 'v) list" where
  "map_erase k m = filter (\<lambda>e. fst e \<noteq> k) m"

definition lower_bound :: "'k::linorder \<Rightarrow> ('k \<times> 'v) list \<Rightarrow> ('k \<times> 'v) option" where
  "lower_bound k m = find (\<lambda>e. k \<le> fst e) m"

definition map_prev :: "'k::linorder \<Rightarrow> ('k \<times> 'v) list \<Rightarrow> ('k \<times> 'v) option" where
  "map_prev k m = (case filter (\<lambda>e. fst e < k) m of [] \<Rightarrow> None | e # es \<Rightarrow> Some (last (e # es)))"

definition map_next :: "'k::linorder \<Rightarrow> ('k \<times> 'v) list \<Rightarrow> ('k \<times> 'v) option" where
  "map_next k m = find (\<lambda>e. k < fst e) m"

text \<open>
  \<open>is_free s a\<close>: the two lookups \<open>freeChunkSets.find(s)\<close> and, in the bucket
  found, \<open>chunkSet.find(a)\<close>. \<open>free_erase\<close>: \<open>chunkSet.erase(cit)\<close> and the
  erasure of a bucket left empty. \<open>free_insert\<close>: the last lines of
  \<open>unlocked_dealloc\<close>.
\<close>

definition is_free :: "nat \<Rightarrow> nat \<Rightarrow> (nat \<times> nat list) list \<Rightarrow> bool" where
  "is_free s a fcs = (case map_of fcs s of None \<Rightarrow> False | Some chunkSet \<Rightarrow> a \<in> set chunkSet)"

definition free_erase :: "nat \<Rightarrow> nat \<Rightarrow> (nat \<times> nat list) list \<Rightarrow> (nat \<times> nat list) list" where
  "free_erase s a fcs =
     (case map_of fcs s of
        None \<Rightarrow> fcs
      | Some chunkSet \<Rightarrow>
          (let chunkSet' = removeAll a chunkSet
           in if chunkSet' = [] then map_erase s fcs else map_set s chunkSet' fcs))"

definition free_insert :: "nat \<Rightarrow> nat \<Rightarrow> (nat \<times> nat list) list \<Rightarrow> (nat \<times> nat list) list" where
  "free_insert s a fcs =
     (case lower_bound s fcs of
        None \<Rightarrow> map_set s [a] fcs
      | Some (k, chunkSet) \<Rightarrow>
          if k \<noteq> s then map_set s [a] fcs
          else map_set s (if a \<in> set chunkSet then chunkSet else a # chunkSet) fcs)"

definition unlocked_dealloc :: "LargeHeap \<Rightarrow> nat \<Rightarrow> error + LargeHeap" where
  "unlocked_dealloc h p =
     (case map_of (chunkSizes h) p of
        None \<Rightarrow> Inl Abort
      | Some sz \<Rightarrow>
          (let (h1, chunk, csz) =
                 (case map_prev p (chunkSizes h) of
                    None \<Rightarrow> (h, p, sz)
                  | Some (prevChunk, prevChunkSize) \<Rightarrow>
                      if prevChunk + prevChunkSize = p
                         \<and> is_free prevChunkSize prevChunk (freeChunkSets h)
                      then (h\<lparr>freeChunkSets := free_erase prevChunkSize prevChunk (freeChunkSets h),
                              chunkSizes := map_set prevChunk (sz + prevChunkSize)
                                              (map_erase p (chunkSizes h))\<rparr>,
                            prevChunk, sz + prevChunkSize)
                      else (h, p, sz));
               (h2, csz2) =
                 (case map_next chunk (chunkSizes h1) of
                    None \<Rightarrow> (h1, csz)
                  | Some (nextChunk, nextChunkSize) \<Rightarrow>
                      if chunk + csz = nextChunk
                         \<and> is_free nextChunkSize nextChunk (freeChunkSets h1)
                      then (h1\<lparr>freeChunkSets := free_erase nextChunkSize nextChunk (freeChunkSets h1),
                               chunkSizes := map_set chunk (csz + nextChunkSize)
                                               (map_erase nextChunk (chunkSizes h1))\<rparr>,
                            csz + nextChunkSize)
                      else (h1, csz))
           in Inr (h2\<lparr>freeChunkSets := free_insert csz2 chunk (freeChunkSets h2)\<rparr>)))"

text \<open>
  \<open>LargeHeap::alloc\<close> of \<open>gs.largeHeap\<close>. Which chunk \<open>chunkSet.begin()\<close> is,
  is up to the hash set: \<open>pick\<close> chooses it. \<open>end - left\<close> is never negative:
  \<open>lower_bound\<close> finds a size of at least \<open>chunkSize\<close>, and \<open>sysAlloc\<close>
  asserts as much.
\<close>

definition LargeHeap_alloc :: "AllocState \<Rightarrow> 64 word \<Rightarrow> nat \<Rightarrow> error + (nat \<times> AllocState)" where
  "LargeHeap_alloc gs chunkSz pick =
     (let h = largeHeap gs
      in ebind (ticket_lock (lock_lh h)) (\<lambda>l.
         ebind (case lower_bound (unat chunkSz) (freeChunkSets h) of
                  None \<Rightarrow> ebind (sysAlloc gs chunkSz) (\<lambda>((start, endp), gs1).
                            Inr (start, endp, freeChunkSets h, gs1))
                | Some (k, chunkSet) \<Rightarrow>
                    if chunkSet = [] then Inl NullDeref
                    else let start = chunkSet ! (pick mod length chunkSet)
                         in Inr (start, start + k, free_erase k start (freeChunkSets h), gs))
           (\<lambda>(start, endp, fcs, gs1).
              let cs1 = map_set start (unat chunkSz) (chunkSizes h);
                  left = start + unat chunkSz;
                  remaining = endp - left
              in ebind (if remaining \<noteq> 0
                        then unlocked_dealloc
                               (h\<lparr>freeChunkSets := fcs, chunkSizes := map_set left remaining cs1\<rparr>) left
                        else Inr (h\<lparr>freeChunkSets := fcs, chunkSizes := cs1\<rparr>)) (\<lambda>h'.
                   Inr (start, gs1\<lparr>largeHeap := h'\<lparr>lock_lh := ticket_unlock l\<rparr>\<rparr>)))))"

definition LargeHeap_dealloc :: "LargeHeap \<Rightarrow> nat \<Rightarrow> error + LargeHeap" where
  "LargeHeap_dealloc h p =
     ebind (ticket_lock (lock_lh h)) (\<lambda>l.
     ebind (unlocked_dealloc h p) (\<lambda>h'.
       Inr (h'\<lparr>lock_lh := ticket_unlock l\<rparr>)))"

definition chunkToSize_noassert :: "LargeHeap \<Rightarrow> nat \<Rightarrow> error + (64 word \<times> LargeHeap)" where
  "chunkToSize_noassert h chunk =
     ebind (ticket_lock (lock_lh h)) (\<lambda>l.
       case map_of (chunkSizes h) chunk of
         None \<Rightarrow> Inr (0, h\<lparr>lock_lh := ticket_unlock l\<rparr>)
       | Some sz \<Rightarrow> Inr (of_nat sz, h\<lparr>lock_lh := ticket_unlock l\<rparr>))"

section \<open>alloc.h: the internal interface\<close>

text \<open>
  \<open>tid\<close> is what \<open>sim_get_tid()\<close> returns; \<open>gs.threadCaches[tid]\<close> with
  \<open>tid\<close> past \<open>kMaxThreads\<close> is outside the array.
\<close>

definition do_alloc ::
  "nat \<Rightarrow> nat \<Rightarrow> nat \<Rightarrow> AllocState \<Rightarrow> 64 word \<Rightarrow> error + (nat option \<times> AllocState)" where
  "do_alloc sizeofAllocState tid pick gs chunkSz =
     (let gs0 = (if \<not> initialized gs then plsalloc_init sizeofAllocState gs else gs)
      in if \<not> isLargeAlloc chunkSz
         then (let cl = sizeToClass chunkSz
               in if kMaxThreads \<le> tid then Inl OutOfBounds
                  else ThreadCache_alloc gs0 tid cl)
         else (let sz = (chunkSz + 63) AND NOT 63
               in ebind (LargeHeap_alloc gs0 sz pick) (\<lambda>(res, gs1). Inr (Some res, gs1))))"

definition do_dealloc :: "nat \<Rightarrow> AllocState \<Rightarrow> nat \<Rightarrow> error + AllocState" where
  "do_dealloc tid gs p =
     (if p = 0 then Inr gs
      else let cl = chunkToClass gs p
           in if cl \<noteq> 0
              then (if kMaxThreads \<le> tid then Inl OutOfBounds
                    else ThreadCache_dealloc gs tid p (ucast cl))
              else ebind (LargeHeap_dealloc (largeHeap gs) p) (\<lambda>h. Inr (gs\<lparr>largeHeap := h\<rparr>)))"

definition chunk_size :: "AllocState \<Rightarrow> nat \<Rightarrow> error + (64 word \<times> AllocState)" where
  "chunk_size gs p =
     (let cl = chunkToClass gs p
      in if cl \<noteq> 0 then Inr (classToSize (ucast cl), gs)
         else ebind (chunkToSize_noassert (largeHeap gs) p) (\<lambda>(sz, h).
                Inr (sz, gs\<lparr>largeHeap := h\<rparr>)))"

definition valid_chunk :: "AllocState \<Rightarrow> nat \<Rightarrow> bool" where
  "valid_chunk gs p = (trackedBase \<le> p \<and> p \<le> trackedBump gs)"

section \<open>Invariants and concrete states\<close>

text \<open>
  A deque is well formed when its head is aligned at block granularity and it
  holds exactly the blocks its size needs: \<open>\<lceil>size / 32\<rceil>\<close>.
\<close>

definition wfd :: "'a BlockedDeque \<Rightarrow> bool" where
  "wfd d = (aligned (phead d) \<and> length (blocks d) = (unat (size_dq d) + 31) div 32)"

text \<open>
  \<open>d3\<close> is the deque after \<open>push_back(10); push_back(20); pop_front()\<close>.
  \<open>zero_AllocState\<close> is untracked memory before \<open>__plsalloc_init\<close>, all zero;
  \<open>gs_boot\<close> is the state after the bootstrap, for one value of
  \<open>sizeof(AllocState)\<close>.
\<close>

definition d3 :: "nat BlockedDeque" where
  "d3 = \<lparr>blocks = [DequeBlock_alloc(0 := Some 10, 1 := Some 20)], phead = 1, ptail = 2\<rparr>"

definition zero_AllocState :: AllocState where
  "zero_AllocState =
     \<lparr>classLists = (\<lambda>c. zero_CentralFreeList),
      largeHeap = \<lparr>freeChunkSets = [], chunkSizes = [], lock_lh = \<lparr>next_ticket = 0, serving = 0\<rparr>\<rparr>,
      threadCaches = (\<lambda>tid. \<lparr>cacheSize = 0, classLists_tc = (\<lambda>c. init)\<rparr>),
      trackedBump = 0, trackedEnd = 0, sizemapBump = 0, sizemapEnd = 0,
      sysAllocLock = \<lparr>next_ticket = 0, serving = 0\<rparr>,
      sizemap = (\<lambda>i. 0), initialized = False\<rparr>"

definition gs_boot :: AllocState where
  "gs_boot = plsalloc_init 16924928 zero_AllocState"

text \<open>
  \<open>bulk_moved elems\<close> is the number of elements one \<open>bulkDealloc(src, elems)\<close>
  moves: whole blocks only once \<open>elems\<close> reaches a block. \<open>src33\<close> is a deque
  of 33 chunks in two blocks, \<open>cfl1\<close> the central list of class 1 before any
  traffic.
\<close>

definition bulk_moved :: "64 word \<Rightarrow> nat" where
  "bulk_moved elems = (if DQBLOCK_SIZE \<le> elems then 32 * (unat elems div 32) else unat elems)"

definition blkA :: "nat DequeBlock" where
  "blkA = (\<lambda>i. Some (trackedBase + 64 * i))"

definition blkB :: "nat DequeBlock" where
  "blkB = (\<lambda>i. if i = 0 then Some (trackedBase + 2048) else None)"

definition src33 :: "nat BlockedDeque" where
  "src33 = \<lparr>blocks = [blkA, blkB], phead = 0, ptail = 33\<rparr>"

definition cfl1 :: CentralFreeList where
  "cfl1 = zero_CentralFreeList\<lparr>chunkSize := 64, elemsPerFetch := 32\<rparr>"

text \<open>
  \<open>allocSize_of sz\<close> is the number of bytes \<open>sysAlloc(sz)\<close> reserves.
\<close>

definition allocSize_of :: "64 word \<Rightarrow> 64 word" where
  "allocSize_of chunkSz = push_bit kPageBits (max 32 (sizeToPages chunkSz))"

text \<open>
  The invariant of the small-object path. \<open>cfl_ok c l\<close>: the recycled deque
  of the central list \<open>l\<close> is well formed, its lock is free, and (for a small
  class \<open>c\<close>) its constants are in the range the bootstrap gives them.
  \<open>tc_wf\<close>: the 256 class lists of a thread cache are well formed.
  \<open>cache_sum\<close>: the bytes a thread cache holds, \<open>\<Sum>c. size(classLists[c])
  * classToSize(c)\<close>, in \<open>size_t\<close> arithmetic. \<open>alloc_inv\<close> puts them
  together for every class and every thread.
\<close>

definition cfl_ok :: "nat \<Rightarrow> CentralFreeList \<Rightarrow> bool" where
  "cfl_ok c l =
     (wfd (freeChunks l) \<and> mutex_free (lock l)
      \<and> (0 < c \<longrightarrow> unat (chunkSize l) = 64 * c \<and> 2 \<le> unat (elemsPerFetch l)
            \<and> unat (elemsPerFetch l) \<le> 32 \<and> 64 * c * unat (elemsPerFetch l) \<le> 32768))"

definition tc_wf :: "ThreadCache \<Rightarrow> bool" where
  "tc_wf tc = (\<forall>c<256. wfd (classLists_tc tc c))"

definition cache_sum :: "ThreadCache \<Rightarrow> 64 word" where
  "cache_sum tc = (\<Sum>c<256. size_dq (classLists_tc tc c) * classToSize (of_nat c))"

definition alloc_inv :: "AllocState \<Rightarrow> bool" where
  "alloc_inv gs =
     ((\<forall>c<256. cfl_ok c (classLists gs c))
      \<and> (\<forall>t<kMaxThreads. tc_wf (threadCaches gs t)
             \<and> cacheSize (threadCaches gs t) = cache_sum (threadCaches gs t))
      \<and> mutex_free (sysAllocLock gs))"

text \<open>
  \<open>count gs c\<close> is the number of chunks of class \<open>c\<close> held in deques, over
  the central list and all thread caches; \<open>bounded n\<close> bounds it by \<open>32 * n\<close>.
  A 64-bit deque counter cannot wrap before \<open>2^64\<close> chunks are held.
\<close>

definition cached :: "AllocState \<Rightarrow> nat \<Rightarrow> nat \<Rightarrow> nat" where
  "cached gs c t = unat (size_dq (classLists_tc (threadCaches gs t) c))"

definition count :: "AllocState \<Rightarrow> nat \<Rightarrow> nat" where
  "count gs c = unat (size_dq (freeChunks (classLists gs c))) + (\<Sum>t<kMaxThreads. cached gs c t)"

definition bounded :: "nat \<Rightarrow> AllocState \<Rightarrow> bool" where
  "bounded n gs = (\<forall>c<256. count gs c \<le> 32 * n)"

text \<open>
  During the donation loop \<open>ThreadCache::dealloc\<close> works on its own members;
  \<open>wb t (tc, gs)\<close> is the global state with the cache \<open>tc\<close> of thread \<open>t\<close>
  in its place.
\<close>

definition wb :: "nat \<Rightarrow> ThreadCache \<times> AllocState \<Rightarrow> AllocState" where
  "wb t s = (snd s)\<lparr>threadCaches := (threadCaches (snd s))(t := fst s)\<rparr>"

text \<open>
  A run of thread-cache calls: \<open>Alloc tid cl\<close> is
  \<open>gs.threadCaches[tid].alloc(cl)\<close>, \<open>Dealloc tid p cl\<close> is
  \<open>gs.threadCaches[tid].dealloc(p, cl)\<close>; \<open>run\<close> stops at the first call
  that fails. A call is valid when \<open>tid\<close> is a thread id and \<open>cl\<close> a small
  class, as \<open>do_alloc\<close> and \<open>do_dealloc\<close> pass them.
\<close>

datatype tc_op = Alloc nat "64 word" | Dealloc nat nat "64 word"

fun tc_step :: "AllocState \<Rightarrow> tc_op \<Rightarrow> error + AllocState" where
  "tc_step gs (Alloc tid cl) = ebind (ThreadCache_alloc gs tid cl) (\<lambda>(res, gs'). Inr gs')"
| "tc_step gs (Dealloc tid p cl) = ThreadCache_dealloc gs tid p cl"

fun run :: "AllocState \<Rightarrow> tc_op list \<Rightarrow> error + AllocState" where
  "run gs [] = Inr gs"
| "run gs (x # xs) = ebind (tc_step gs x) (\<lambda>gs'. run gs' xs)"

fun valid_op :: "tc_op \<Rightarrow> bool" where
  "valid_op (Alloc tid cl) = (tid < kMaxThreads \<and> cl \<noteq> 0 \<and> cl < kMaxClasses)"
| "valid_op (Dealloc tid p cl) = (tid < kMaxThreads \<and> cl \<noteq> 0 \<and> cl < kMaxClasses)"

definition ops_example :: "tc_op list" where
  "ops_example = [Alloc 0 1, Dealloc 0 trackedBase 1, Dealloc 3 (trackedBase + 64) 2]"











text \<open>
  The spec's formula for \<open>elemsPerFetch\<close>, with the ceiling it names.
\<close>

definition elemsPerFetch_spec :: "nat \<Rightarrow> nat" where
  "elemsPerFetch_spec cl = min 32 (max ((32768 + 64 * cl - 1) div (64 * cl)) 2)"

section \<open>Properties of the blocked deque\<close>

text \<open>Block arithmetic: \<open>(n + 31) div 32\<close> blocks hold \<open>n\<close> elements.\<close>

lemma r31: "(r::nat) < 32 \<Longrightarrow> (r + 31) div 32 = (if r = 0 then 0 else 1)"
  by (auto intro: div_nat_eqI)

lemma ceil32: "((n::nat) + 31) div 32 = n div 32 + (if n mod 32 = 0 then 0 else 1)"
proof -
  define q r where "q = n div 32" and "r = n mod 32"
  have n: "n = 32 * q + r" and r: "r < 32" by (simp_all add: q_def r_def)
  have "(32 * q + (r + 31)) div 32 = q + (r + 31) div 32" by simp
  then have "(n + 31) div 32 = q + (if r = 0 then 0 else 1)"
    using r31[OF r] by (simp add: n add.assoc)
  then show ?thesis by (simp add: q_def r_def)
qed

lemma c_succ_al: "(n::nat) mod 32 = 0 \<Longrightarrow> (n + 1 + 31) div 32 = (n + 31) div 32 + 1"
  by (simp add: ceil32)

lemma c_succ_nal: "(n::nat) mod 32 \<noteq> 0 \<Longrightarrow> (n + 1 + 31) div 32 = (n + 31) div 32"
  by (simp add: ceil32)

lemma c_pred_nal: "(n - 1) mod 32 \<noteq> 0 \<Longrightarrow> 0 < n \<Longrightarrow> (n - 1 + 31) div 32 = ((n::nat) + 31) div 32"
  using c_succ_nal[of "n - 1"] by simp

lemma c_pred_al: "(n - 1) mod 32 = 0 \<Longrightarrow> 0 < n \<Longrightarrow> (n - 1 + 31) div 32 = ((n::nat) + 31) div 32 - 1"
  using c_succ_al[of "n - 1"] by simp

lemma c_one: "(n - 1) mod 32 = 0 \<Longrightarrow> 0 < n \<Longrightarrow> ((n::nat) + 31) div 32 \<le> 1 \<Longrightarrow> n = 1"
  using c_succ_al[of "n - 1"] by (simp add: ceil32 split: if_splits)

lemma c_add_blocks: "((m::nat) + 32 * k + 31) div 32 = (m + 31) div 32 + k"
  by (simp add: ceil32)

lemma c_lt: "k < ((n::nat) + 31) div 32 \<Longrightarrow> 32 * k < n"
proof (rule ccontr)
  assume a: "k < (n + 31) div 32" and "\<not> 32 * k < n"
  then have "n + 31 \<le> 32 * k + 31" by simp
  then have "(n + 31) div 32 \<le> (32 * k + 31) div 32" by (rule div_le_mono)
  also have "\<dots> = k" by simp
  finally show False using a by simp
qed

lemma c_split:
  assumes "k < ((n::nat) + 31) div 32"
  shows "(n - 32 * k + 31) div 32 = (n + 31) div 32 - k"
proof -
  have "32 * k < n" using assms by (rule c_lt)
  then have "n = (n - 32 * k) + 32 * k" by simp
  then have "(n + 31) div 32 = (n - 32 * k + 31) div 32 + k"
    using c_add_blocks[of "n - 32 * k" k] by simp
  then show ?thesis by simp
qed

lemma c_al_div: "(m::nat) mod 32 = 0 \<Longrightarrow> (m + 31) div 32 = m div 32"
  by (simp add: ceil32)

lemma c_merge: "(m::nat) mod 32 = 0 \<Longrightarrow> (n + m + 31) div 32 = (n + 31) div 32 + (m + 31) div 32"
proof -
  assume a: "m mod 32 = 0"
  then have "m = 32 * (m div 32)" by (simp add: mod_eq_0_iff_dvd)
  then have "(n + m + 31) div 32 = (n + 31) div 32 + m div 32"
    using c_add_blocks[of n "m div 32"] by simp
  then show ?thesis using a by (simp add: c_al_div)
qed

lemma c_pos: "0 < ((n::nat) + 31) div 32 \<longleftrightarrow> 0 < n"
  by (simp add: div_greater_zero_iff) linarith

lemma c_le1:
  assumes "((n::nat) + 31) div 32 \<le> 1" and "32 \<le> n"
  shows "n = 32"
proof (rule ccontr)
  assume "n \<noteq> 32"
  then have "64 \<le> n + 31" using assms(2) by simp
  then have "64 div 32 \<le> (n + 31) div 32" by (rule div_le_mono)
  then show False using assms(1) by simp
qed


lemma mask_take: "w AND DQBLOCK_MASK = take_bit 5 w"
  by (simp add: DQBLOCK_MASK_def DQBLOCK_SIZE_def take_bit_eq_mask mask_eq_exp_minus_1)

lemma slot_eq: "slot w = unat w mod 32"
  by (simp add: slot_def mask_take unsigned_take_bit_eq take_bit_eq_mod unat_mod)

lemma aligned_iff: "aligned w \<longleftrightarrow> unat w mod 32 = 0"
  using slot_eq[of w] by (simp add: aligned_def slot_def unat_eq_0[symmetric] del: unat_eq_0)

lemma mod32_word: "(n mod 18446744073709551616) mod 32 = n mod (32::nat)"
  by (rule mod_mod_cancel) simp

lemma unat_add_mod32: "unat (a + b :: 64 word) mod 32 = (unat a + unat b) mod 32"
  by (simp add: unat_word_ariths mod32_word)

lemma aligned_add: "aligned a \<Longrightarrow> aligned (a + b) \<longleftrightarrow> aligned b"
  unfolding aligned_iff unat_add_mod32 by presburger

lemma aligned_diff: "aligned a \<Longrightarrow> aligned (b - a) \<longleftrightarrow> aligned b"
  using aligned_add[of a "b - a"] by simp

lemma aligned_minus: "aligned a \<Longrightarrow> aligned b \<Longrightarrow> aligned (a - b)"
  using aligned_add[of b "a - b"] by simp

lemma aligned_0: "aligned 0"
  by (simp add: aligned_def)

lemma wfd_init: "wfd init"
  by (simp add: wfd_def init_def size_dq_def aligned_def)

lemma size_init: "size_dq init = 0"
  by (simp add: init_def size_dq_def)

lemma wfd_aligned_ptail: "wfd d \<Longrightarrow> aligned (ptail d) \<longleftrightarrow> unat (size_dq d) mod 32 = 0"
  using aligned_diff[of "phead d" "ptail d"] by (simp add: wfd_def size_dq_def aligned_iff)

lemma wfd_blocks_Nil: "wfd d \<Longrightarrow> blocks d = [] \<longleftrightarrow> size_dq d = 0"
  using c_pos[of "unat (size_dq d)"] by (auto simp: wfd_def unat_gt_0)

lemma unat_succ: "unat (w :: 64 word) < 2 ^ 64 - 1 \<Longrightarrow> unat (w + 1) = unat w + 1"
  by (simp add: unat_word_ariths)

lemma unat_pred: "(w :: 64 word) \<noteq> 0 \<Longrightarrow> unat (w - 1) = unat w - 1"
  by (simp add: unat_minus_one)

lemma push_back_wfd:
  assumes "wfd d" and "unat (size_dq d) < 2 ^ 64 - 1"
  shows "\<exists>d'. push_back d v = Inr d' \<and> wfd d' \<and> size_dq d' = size_dq d + 1"
proof -
  let ?n = "unat (size_dq d)"
  have al: "aligned (ptail d) \<longleftrightarrow> ?n mod 32 = 0"
    using assms(1) by (rule wfd_aligned_ptail)
  have len: "length (blocks d) = (?n + 31) div 32" and ph: "aligned (phead d)"
    using assms(1) by (simp_all add: wfd_def)
  have sz: "unat (size_dq d + 1) = ?n + 1"
    using assms(2) by (rule unat_succ)
  show ?thesis
  proof (cases "aligned (ptail d)")
    case True
    let ?d' = "d\<lparr>blocks := blocks d @ [DequeBlock_alloc(slot (ptail d) := v)], ptail := ptail d + 1\<rparr>"
    have pb: "push_back d v = Inr ?d'"
      using True by (simp add: push_back_def expand_def Let_def)
    have s1: "size_dq ?d' = size_dq d + 1" by (simp add: size_dq_def)
    have "?n mod 32 = 0" using True al by simp
    then have "(?n + 1 + 31) div 32 = (?n + 31) div 32 + 1" by (rule c_succ_al)
    then have "length (blocks ?d') = (unat (size_dq ?d') + 31) div 32"
      unfolding s1 sz using len by simp
    then have "wfd ?d'" using ph by (simp add: wfd_def)
    then show ?thesis using pb s1 by blast
  next
    case False
    let ?d' = "d\<lparr>blocks := butlast (blocks d) @ [(last (blocks d))(slot (ptail d) := v)], ptail := ptail d + 1\<rparr>"
    have m: "?n mod 32 \<noteq> 0" using False al by simp
    have ne: "blocks d \<noteq> []" using m len by (cases "blocks d") auto
    have pb: "push_back d v = Inr ?d'"
      using False ne by (simp add: push_back_def Let_def)
    have s1: "size_dq ?d' = size_dq d + 1" by (simp add: size_dq_def)
    have "(?n + 1 + 31) div 32 = (?n + 31) div 32" using m by (rule c_succ_nal)
    then have "length (blocks ?d') = (unat (size_dq ?d') + 31) div 32"
      unfolding s1 sz using len ne by simp
    then have "wfd ?d'" using ph by (simp add: wfd_def)
    then show ?thesis using pb s1 by blast
  qed
qed

lemma dequeue_back_wfd:
  assumes "wfd d" and "size_dq d \<noteq> 0"
  shows "\<exists>v d'. dequeue_back d = Inr (v, d') \<and> wfd d' \<and> size_dq d' = size_dq d - 1"
proof -
  let ?n = "unat (size_dq d)"
  have len: "length (blocks d) = (?n + 31) div 32" and ph: "aligned (phead d)"
    using assms(1) by (simp_all add: wfd_def)
  have n0: "0 < ?n" using assms(2) by (simp add: unat_gt_0)
  have ne: "blocks d \<noteq> []" using assms wfd_blocks_Nil by blast
  have sz: "unat (size_dq d - 1) = ?n - 1" using assms(2) by (rule unat_pred)
  have sz': "ptail d - 1 - phead d = size_dq d - 1" by (simp add: size_dq_def)
  have al: "aligned (ptail d - 1) \<longleftrightarrow> (?n - 1) mod 32 = 0"
    using aligned_diff[OF ph, of "ptail d - 1"] sz by (simp add: sz' aligned_iff)
  let ?d1 = "d\<lparr>ptail := ptail d - 1\<rparr>"
  have s1: "size_dq ?d1 = size_dq d - 1" by (simp add: size_dq_def)
  show ?thesis
  proof (cases "aligned (ptail d - 1)")
    case False
    have db: "dequeue_back d = Inr ((last (blocks d)) (slot (ptail d - 1)), ?d1)"
      using False ne by (simp add: dequeue_back_def Let_def)
    have "(?n - 1) mod 32 \<noteq> 0" using False al by simp
    then have "(?n - 1 + 31) div 32 = (?n + 31) div 32" using n0 by (rule c_pred_nal)
    then have "length (blocks ?d1) = (unat (size_dq ?d1) + 31) div 32"
      unfolding s1 sz using len by simp
    then have "wfd ?d1" using ph by (simp add: wfd_def)
    then show ?thesis using db s1 by blast
  next
    case True
    then have m: "(?n - 1) mod 32 = 0" using al by simp
    show ?thesis
    proof (cases "length (blocks d) \<le> 1")
      case le: True
      then have "?n = 1" using c_one[OF m n0] len by simp
      then have one: "size_dq d = 1" by (simp add: word_unat_eq_iff)
      then have "phead d = ptail d - 1" by (simp add: size_dq_def algebra_simps)
      then have db: "dequeue_back d = Inr ((last (blocks d)) (slot (ptail d - 1)), init)"
        using le True ne by (simp add: dequeue_back_def Let_def reset_def ebind_def)
      have "size_dq (init :: 'a BlockedDeque) = size_dq d - 1"
        using one by (simp add: init_def size_dq_def)
      then show ?thesis using db wfd_init by blast
    next
      case gt: False
      let ?d2 = "?d1\<lparr>blocks := butlast (blocks d)\<rparr>"
      have db: "dequeue_back d = Inr ((last (blocks d)) (slot (ptail d - 1)), ?d2)"
        using gt True ne by (simp add: dequeue_back_def Let_def shrink_def ebind_def)
      have s2: "size_dq ?d2 = size_dq d - 1" by (simp add: size_dq_def)
      have "(?n - 1 + 31) div 32 = (?n + 31) div 32 - 1" using m n0 by (rule c_pred_al)
      then have "length (blocks ?d2) = (unat (size_dq ?d2) + 31) div 32"
        unfolding s2 sz using len by simp
      then have "wfd ?d2" using ph by (simp add: wfd_def)
      then show ?thesis using db s2 by blast
    qed
  qed
qed

lemma move_back_wfd:
  assumes "wfd src" and "wfd dst" and "n \<le> unat (size_dq src)"
    and "unat (size_dq dst) + n < 2 ^ 64"
  shows "\<exists>src' dst'. move_back n src dst = Inr (src', dst') \<and> wfd src' \<and> wfd dst'
           \<and> unat (size_dq src') = unat (size_dq src) - n
           \<and> unat (size_dq dst') = unat (size_dq dst) + n"
  using assms
proof (induction n arbitrary: src dst)
  case 0
  then show ?case by simp
next
  case (Suc n)
  have nz: "size_dq src \<noteq> 0" using Suc.prems(3) by (auto simp: unat_gt_0[symmetric] simp del: unat_gt_0)
  obtain v s1 where dq: "dequeue_back src = Inr (v, s1)" and w1: "wfd s1"
    and z1: "size_dq s1 = size_dq src - 1"
    using dequeue_back_wfd[OF Suc.prems(1) nz] by blast
  have u1: "unat (size_dq s1) = unat (size_dq src) - 1"
    unfolding z1 using nz by (rule unat_pred)
  have lt: "unat (size_dq dst) < 2 ^ 64 - 1" using Suc.prems(4) by simp
  obtain d1 where pb: "push_back dst v = Inr d1" and w2: "wfd d1"
    and z2: "size_dq d1 = size_dq dst + 1"
    using push_back_wfd[OF Suc.prems(2) lt] by blast
  have u2: "unat (size_dq d1) = unat (size_dq dst) + 1"
    unfolding z2 using lt by (rule unat_succ)
  have a: "n \<le> unat (size_dq s1)" using Suc.prems(3) u1 by simp
  have b: "unat (size_dq d1) + n < 2 ^ 64" using Suc.prems(4) u2 by simp
  obtain s' d' where mv: "move_back n s1 d1 = Inr (s', d')" and "wfd s'" "wfd d'"
    and "unat (size_dq s') = unat (size_dq s1) - n" "unat (size_dq d') = unat (size_dq d1) + n"
    using Suc.IH[OF w1 w2 a b] by blast
  moreover have "move_back (Suc n) src dst = Inr (s', d')"
    by (simp add: dq pb mv ebind_def)
  ultimately show ?case using u1 u2 by simp
qed

lemma walk_drop: "k \<le> length xs \<Longrightarrow> walk k xs = Inr (drop k xs)"
proof (induction k arbitrary: xs)
  case 0
  then show ?case by simp
next
  case (Suc k)
  then show ?case by (cases xs) simp_all
qed

lemma unat_blocks32:
  assumes "32 * unat (b :: 64 word) < 2 ^ 64"
  shows "unat (b * DQBLOCK_SIZE) = 32 * unat b"
proof -
  have "unat b * unat (32 :: 64 word) < 2 ^ LENGTH(64)" using assms by (simp add: mult.commute)
  then have "unat (b * 32) = unat b * unat (32 :: 64 word)" by (simp only: unat_mult_lem)
  then show ?thesis by (simp add: DQBLOCK_SIZE_def mult.commute)
qed

lemma aligned_blocks32: "aligned (b * DQBLOCK_SIZE)"
proof -
  have "unat (b * 32 :: 64 word) mod 32 = (unat b * 32) mod 32"
    by (simp add: unat_word_ariths mod32_word)
  then show ?thesis by (simp add: aligned_iff DQBLOCK_SIZE_def)
qed

lemma splice_front_wfd:
  assumes "wfd d" and "1 \<le> unat blks" and "unat blks < length (blocks d)"
  shows "\<exists>res d'. splice_front d blks = Inr (res, d') \<and> wfd res \<and> wfd d'
           \<and> aligned (ptail res) \<and> blocks res \<noteq> []
           \<and> unat (size_dq res) = 32 * unat blks
           \<and> unat (size_dq d') = unat (size_dq d) - 32 * unat blks
           \<and> 32 * unat blks < unat (size_dq d)"
proof -
  let ?n = "unat (size_dq d)" and ?k = "unat blks"
  let ?res = "\<lparr>blocks = take ?k (blocks d), phead = 0, ptail = blks * DQBLOCK_SIZE\<rparr>"
  let ?d' = "d\<lparr>blocks := drop ?k (blocks d), phead := phead d + blks * DQBLOCK_SIZE\<rparr>"
  have len: "length (blocks d) = (?n + 31) div 32" and ph: "aligned (phead d)"
    using assms(1) by (simp_all add: wfd_def)
  have klt: "?k < (?n + 31) div 32" using assms(3) len by simp
  have lt: "32 * ?k < ?n" using klt by (rule c_lt)
  have "?n < 2 ^ 64" using unsigned_less[of "size_dq d"] by simp
  then have u32: "unat (blks * DQBLOCK_SIZE) = 32 * ?k"
    using lt by (intro unat_blocks32) simp
  have w: "walk (?k - Suc 0) (blocks d) = Inr (drop (?k - Suc 0) (blocks d))"
    using assms(3) by (intro walk_drop) simp
  have "Suc (?k - Suc 0) = ?k" using assms(2) by simp
  then have tl: "tl (drop (?k - Suc 0) (blocks d)) = drop ?k (blocks d)"
    by (metis drop_Suc tl_drop)
  have ne1: "drop (?k - Suc 0) (blocks d) \<noteq> []" and ne2: "drop ?k (blocks d) \<noteq> []"
    using assms(2,3) by simp_all
  have tk: "length (blocks d) - (length (blocks d) - ?k) = ?k"
    using assms(3) by simp
  have sp: "splice_front d blks = Inr (?res, ?d')"
    using ph ne1 ne2 by (simp add: splice_front_def w ebind_def tl tk)
  have s1: "size_dq ?res = blks * DQBLOCK_SIZE" by (simp add: size_dq_def)
  have s2: "size_dq ?d' = size_dq d - blks * DQBLOCK_SIZE" by (simp add: size_dq_def)
  have le: "blks * DQBLOCK_SIZE \<le> size_dq d"
    using lt u32 by (simp add: word_le_nat_alt)
  have u2: "unat (size_dq ?d') = ?n - 32 * ?k"
    unfolding s2 using le u32 by (simp add: unat_sub)
  have "(32 * ?k + 31) div 32 = ?k" by simp
  then have w1: "wfd ?res"
    using assms(3) by (simp add: wfd_def s1 u32 aligned_0)
  have "length (blocks ?d') = (unat (size_dq ?d') + 31) div 32"
    unfolding u2 using c_split[OF klt] len by simp
  moreover have "aligned (phead ?d')"
    using ph aligned_blocks32 by (simp add: aligned_add)
  ultimately have w2: "wfd ?d'" by (simp add: wfd_def)
  have a: "aligned (ptail ?res)" using aligned_blocks32 by simp
  have b: "blocks ?res \<noteq> []" using assms(2,3) by auto
  show ?thesis using sp w1 w2 a b s1 u32 u2 lt by (intro exI conjI) auto
qed

lemma merge_front_wfd:
  assumes "wfd d" and "wfd l" and "aligned (ptail l)" and "blocks l \<noteq> []"
    and "unat (size_dq d) + unat (size_dq l) < 2 ^ 64"
  shows "\<exists>d'. merge_front d l = Inr d' \<and> wfd d'
           \<and> unat (size_dq d') = unat (size_dq d) + unat (size_dq l)"
proof (cases "blocks d = []")
  case True
  then have "size_dq d = 0" using assms(1) wfd_blocks_Nil by blast
  then show ?thesis using True assms(2) by (simp add: merge_front_def empty_dq_def)
next
  case False
  let ?n = "unat (size_dq d)" and ?m = "unat (size_dq l)"
  let ?d' = "d\<lparr>phead := phead d - size_dq l, blocks := blocks l @ blocks d\<rparr>"
  have ph: "aligned (phead d)" and len: "length (blocks d) = (?n + 31) div 32"
    using assms(1) by (simp_all add: wfd_def)
  have lenl: "length (blocks l) = (?m + 31) div 32" and phl: "aligned (phead l)"
    using assms(2) by (simp_all add: wfd_def)
  have m0: "?m mod 32 = 0" using wfd_aligned_ptail[OF assms(2)] assms(3) by simp
  have al: "aligned (size_dq l)" using m0 by (simp add: aligned_iff)
  have mf: "merge_front d l = Inr ?d'"
    using False ph assms(3,4) by (simp add: merge_front_def empty_dq_def)
  have s: "size_dq ?d' = size_dq d + size_dq l" by (simp add: size_dq_def)
  have u: "unat (size_dq ?d') = ?n + ?m"
    unfolding s using assms(5) by (simp add: unat_add_lem[THEN iffD1])
  have "length (blocks ?d') = (unat (size_dq ?d') + 31) div 32"
    unfolding u using c_merge[OF m0, of ?n] len lenl by simp
  moreover have "aligned (phead ?d')" using ph al by (simp add: aligned_minus)
  ultimately have "wfd ?d'" by (simp add: wfd_def)
  then show ?thesis using mf u by blast
qed

lemma steal_front_wfd:
  assumes "wfd d" and "32 \<le> unat (size_dq d)"
  shows "\<exists>d' dst. steal_front d = (d', dst) \<and> wfd d' \<and> wfd dst
           \<and> unat (size_dq dst) = 32 \<and> unat (size_dq d') = unat (size_dq d) - 32"
proof -
  let ?n = "unat (size_dq d)"
  let ?dst = "\<lparr>blocks = take 1 (blocks d), phead = 0, ptail = DQBLOCK_SIZE\<rparr>"
  have ph: "aligned (phead d)" and len: "length (blocks d) = (?n + 31) div 32"
    using assms(1) by (simp_all add: wfd_def)
  have "0 < ?n" using assms(2) by simp
  then have pos: "0 < length (blocks d)" using len c_pos[of ?n] by simp
  have sd: "unat (size_dq ?dst) = 32" by (simp add: size_dq_def DQBLOCK_SIZE_def)
  have "length (take 1 (blocks d)) = 1" using pos by (cases "blocks d") simp_all
  then have wd: "wfd ?dst" by (simp add: wfd_def size_dq_def DQBLOCK_SIZE_def aligned_0)
  show ?thesis
  proof (cases "length (blocks d) \<le> 1")
    case True
    then have "?n = 32" using c_le1[of ?n] assms(2) len by simp
    then have "unat (size_dq (init :: 'a BlockedDeque)) = ?n - 32" by (simp add: size_init)
    moreover have "steal_front d = (init, ?dst)" using True by (simp add: steal_front_def Let_def)
    ultimately show ?thesis using wd sd wfd_init by blast
  next
    case False
    let ?d' = "d\<lparr>blocks := tl (blocks d), phead := phead d + DQBLOCK_SIZE\<rparr>"
    have st: "steal_front d = (?d', ?dst)" using False by (simp add: steal_front_def Let_def)
    have s: "size_dq ?d' = size_dq d - 32" by (simp add: size_dq_def DQBLOCK_SIZE_def)
    have "(32 :: 64 word) \<le> size_dq d" using assms(2) by (simp add: word_le_nat_alt)
    then have u: "unat (size_dq ?d') = ?n - 32" unfolding s by (simp add: unat_sub)
    have k1: "1 < (?n + 31) div 32" using False len by simp
    have "length (blocks ?d') = (unat (size_dq ?d') + 31) div 32"
      unfolding u using c_split[OF k1] len by simp
    moreover have "aligned (phead ?d')"
      using ph aligned_blocks32[of 1] by (simp add: aligned_add)
    ultimately have "wfd ?d'" by (simp add: wfd_def)
    then show ?thesis using st wd sd u by blast
  qed
qed

lemma push_range_wfd:
  assumes "wfd d" and "0 < cs" and "unat (size_dq d) + k < 2 ^ 64"
  shows "\<exists>d'. push_range start (start + cs * k) cs d = Inr d' \<and> wfd d'
           \<and> unat (size_dq d') = unat (size_dq d) + k"
  using assms
proof (induction k arbitrary: start d)
  case 0
  then show ?case by (subst push_range.simps) simp
next
  case (Suc k)
  have lt: "unat (size_dq d) < 2 ^ 64 - 1" using Suc.prems(3) by simp
  obtain d1 where pb: "push_back d (Some start) = Inr d1" and w1: "wfd d1"
    and z: "size_dq d1 = size_dq d + 1"
    using push_back_wfd[OF Suc.prems(1) lt] by blast
  have u1: "unat (size_dq d1) = unat (size_dq d) + 1"
    unfolding z using lt by (rule unat_succ)
  have b: "unat (size_dq d1) + k < 2 ^ 64" using Suc.prems(3) u1 by simp
  obtain d' where pr: "push_range (start + cs) (start + cs + cs * k) cs d1 = Inr d'"
    and "wfd d'" and "unat (size_dq d') = unat (size_dq d1) + k"
    using Suc.IH[OF w1 Suc.prems(2) b, of "start + cs"] by blast
  moreover have "push_range start (start + cs * Suc k) cs d = Inr d'"
    using Suc.prems(2) pr by (subst push_range.simps) (simp add: pb ebind_def add.assoc)
  ultimately show ?case using u1 by simp
qed

lemma d3_reached:
  "ebind (push_back init (Some 10)) (\<lambda>d. ebind (push_back d (Some 20)) pop_front) = Inr d3"
  by (simp add: d3_def push_back_def init_def expand_def pop_front_def ebind_def Let_def
      aligned_def slot_def DQBLOCK_MASK_def DQBLOCK_SIZE_def empty_dq_def)

text \<open>
  C3. \<open>dequeue_back\<close> is documented as \<open>back()\<close> followed by \<open>pop_back()\<close>.
  On the deque \<open>d3\<close> (one block, \<open>phead = 1\<close>, \<open>ptail = 2\<close>, reached by two
  \<open>push_back\<close> and one \<open>pop_front\<close>) both return the element 20, but
  \<open>pop_back\<close> sees \<open>phead == ptail\<close> and resets the deque (block released,
  counters 0), while \<open>dequeue_back\<close> only tests the alignment of \<open>ptail\<close>,
  keeps the block and leaves \<open>phead = ptail = 1\<close>: a deque of size 0 that
  \<open>empty()\<close> reports as not empty.
\<close>

theorem dequeue_back_not_pop_back:
  "back_dq d3 = Inr (Some 20) \<and> pop_back d3 = Inr init
   \<and> dequeue_back d3 = Inr (Some 20, d3\<lparr>ptail := 1\<rparr>)
   \<and> blocks (d3\<lparr>ptail := 1\<rparr>) \<noteq> blocks (init :: nat BlockedDeque)"
  by (simp add: d3_def back_dq_def pop_back_def dequeue_back_def init_def reset_def ebind_def Let_def
      aligned_def slot_def DQBLOCK_MASK_def DQBLOCK_SIZE_def empty_dq_def)

section \<open>Properties of the central free list\<close>

lemma lock_unlock:
  "mutex_free m \<Longrightarrow> \<exists>l. ticket_lock m = Inr l \<and> mutex_free (ticket_unlock l)"
  by (simp add: mutex_free_def ticket_lock_def ticket_unlock_def Let_def)

lemma le32_iff: "DQBLOCK_SIZE \<le> e \<longleftrightarrow> 32 \<le> unat e"
  by (simp add: DQBLOCK_SIZE_def word_le_nat_alt)

lemma div32_unat: "unat (e div DQBLOCK_SIZE) = unat e div 32"
  by (simp add: DQBLOCK_SIZE_def unat_div)

lemma bulk_moved_le: "bulk_moved e \<le> unat e"
  by (simp add: bulk_moved_def)

lemma bulkDealloc_ok:
  assumes ws: "wfd src" and wf: "wfd (freeChunks this)" and mf: "mutex_free (lock this)"
    and le: "unat elems \<le> unat (size_dq src)"
    and blk: "32 \<le> unat elems \<longrightarrow> unat elems div 32 < length (blocks src)"
    and room: "unat (size_dq (freeChunks this)) + unat elems < 2 ^ 64"
  shows "\<exists>fc l src'. CentralFreeList_bulkDealloc this src elems
             = Inr (this\<lparr>freeChunks := fc, lock := l\<rparr>, src')
           \<and> wfd fc \<and> wfd src' \<and> mutex_free l
           \<and> unat (size_dq fc) = unat (size_dq (freeChunks this)) + bulk_moved elems
           \<and> unat (size_dq src') = unat (size_dq src) - bulk_moved elems"
proof -
  obtain l where lk: "ticket_lock (lock this) = Inr l" and fr: "mutex_free (ticket_unlock l)"
    using lock_unlock[OF mf] by blast
  show ?thesis
  proof (cases "DQBLOCK_SIZE \<le> elems")
    case True
    let ?k = "unat elems div 32"
    have e32: "32 \<le> unat elems" using True by (simp add: le32_iff)
    then have k1: "1 \<le> unat (elems div DQBLOCK_SIZE)"
      by (simp add: div32_unat div_greater_zero_iff Suc_le_eq)
    have k2: "unat (elems div DQBLOCK_SIZE) < length (blocks src)"
      using blk e32 by (simp add: div32_unat)
    obtain res src' where sp: "splice_front src (elems div DQBLOCK_SIZE) = Inr (res, src')"
      and wr: "wfd res" and ws': "wfd src'" and ar: "aligned (ptail res)" and nr: "blocks res \<noteq> []"
      and ur: "unat (size_dq res) = 32 * ?k"
      and us: "unat (size_dq src') = unat (size_dq src) - 32 * ?k"
      using splice_front_wfd[OF ws k1 k2] unfolding div32_unat by blast
    have "32 * ?k \<le> unat elems" by simp
    then have rm: "unat (size_dq (freeChunks this)) + unat (size_dq res) < 2 ^ 64"
      using room ur by simp
    obtain fc where mg: "merge_front (freeChunks this) res = Inr fc" and wfc: "wfd fc"
      and uf: "unat (size_dq fc) = unat (size_dq (freeChunks this)) + unat (size_dq res)"
      using merge_front_wfd[OF wf wr ar nr rm] by blast
    have "CentralFreeList_bulkDealloc this src elems
            = Inr (this\<lparr>freeChunks := fc, lock := ticket_unlock l\<rparr>, src')"
      using True by (simp add: CentralFreeList_bulkDealloc_def Let_def sp lk mg ebind_def)
    then show ?thesis
      using wfc ws' fr uf ur us True by (auto simp: bulk_moved_def)
  next
    case False
    have rm: "unat (size_dq (freeChunks this)) + unat elems < 2 ^ 64" using room .
    obtain src' fc where mv: "move_back (unat elems) src (freeChunks this) = Inr (src', fc)"
      and "wfd src'" "wfd fc"
      and "unat (size_dq src') = unat (size_dq src) - unat elems"
      and "unat (size_dq fc) = unat (size_dq (freeChunks this)) + unat elems"
      using move_back_wfd[OF ws wf le rm] by blast
    moreover have "CentralFreeList_bulkDealloc this src elems
            = Inr (this\<lparr>freeChunks := fc, lock := ticket_unlock l\<rparr>, src')"
      using False by (simp add: CentralFreeList_bulkDealloc_def lk mv ebind_def)
    ultimately show ?thesis
      using fr False by (auto simp: bulk_moved_def)
  qed
qed

text \<open>
  C1 (as amended). For a well-formed source deque \<open>src\<close> and a count
  \<open>elems \<le> src.size()\<close>, with the recycled deque well formed, the lock free,
  and (when \<open>elems \<ge> 32\<close>) \<open>src\<close> holding at least one block more than the
  \<open>elems / 32\<close> spliced, \<open>bulkDealloc(src, elems)\<close> returns and moves from
  \<open>src\<close> to \<open>freeChunks\<close> exactly \<open>elems\<close> elements if \<open>elems < 32\<close>, and
  exactly \<open>32 * (elems / 32)\<close> elements, the whole blocks, if \<open>elems \<ge> 32\<close>.
  (The last hypothesis keeps the 64-bit size of \<open>freeChunks\<close> from wrapping.)
\<close>

theorem bulkDealloc_moves_whole_blocks:
  assumes "wfd src" and "wfd (freeChunks this)" and "mutex_free (lock this)"
    and "elems \<le> size_dq src"
    and "DQBLOCK_SIZE \<le> elems \<longrightarrow> unat (elems div DQBLOCK_SIZE) < length (blocks src)"
    and "unat (size_dq (freeChunks this)) + unat elems < 2 ^ 64"
  shows "\<exists>this' src'. CentralFreeList_bulkDealloc this src elems = Inr (this', src')
           \<and> unat (size_dq (freeChunks this'))
               = unat (size_dq (freeChunks this))
                 + (if DQBLOCK_SIZE \<le> elems then 32 * (unat elems div 32) else unat elems)
           \<and> unat (size_dq src')
               = unat (size_dq src)
                 - (if DQBLOCK_SIZE \<le> elems then 32 * (unat elems div 32) else unat elems)"
proof -
  have le: "unat elems \<le> unat (size_dq src)" using assms(4) by (simp add: word_le_nat_alt)
  have blk: "32 \<le> unat elems \<longrightarrow> unat elems div 32 < length (blocks src)"
    using assms(5) by (simp add: le32_iff div32_unat)
  obtain fc l src' where
    "CentralFreeList_bulkDealloc this src elems = Inr (this\<lparr>freeChunks := fc, lock := l\<rparr>, src')"
    "unat (size_dq fc) = unat (size_dq (freeChunks this)) + bulk_moved elems"
    "unat (size_dq src') = unat (size_dq src) - bulk_moved elems"
    using bulkDealloc_ok[OF assms(1,2,3) le blk assms(6)] by blast
  then show ?thesis by (auto simp: bulk_moved_def)
qed

lemma src33_facts:
  "wfd src33" "wfd (freeChunks cfl1)" "mutex_free (lock cfl1)" "33 \<le> size_dq src33"
  "DQBLOCK_SIZE \<le> 33 \<longrightarrow> unat (33 div DQBLOCK_SIZE) < length (blocks src33)"
  "unat (size_dq (freeChunks cfl1)) + unat (33 :: 64 word) < 2 ^ 64"
  by (simp_all add: src33_def cfl1_def zero_CentralFreeList_def wfd_def size_dq_def aligned_0
      init_def mutex_free_def DQBLOCK_SIZE_def)

text \<open>
  C1, the claim as stated fails at \<open>elems = 33\<close>: from a source of 33 elements
  in two blocks one block is spliced, 32 elements reach \<open>freeChunks\<close> and one
  stays behind.
\<close>

theorem bulkDealloc_33_moves_32:
  "33 \<le> size_dq src33 \<and> aligned (phead src33) \<and> length (blocks src33) = 2
   \<and> size_dq (freeChunks cfl1) = 0
   \<and> CentralFreeList_bulkDealloc cfl1 src33 33
       = Inr (cfl1\<lparr>freeChunks := \<lparr>blocks = [blkA], phead = 0, ptail = 32\<rparr>,
                    lock := \<lparr>next_ticket = 1, serving = 1\<rparr>\<rparr>,
              \<lparr>blocks = [blkB], phead = 32, ptail = 33\<rparr>)"
  by (simp add: src33_def cfl1_def zero_CentralFreeList_def CentralFreeList_bulkDealloc_def
      size_dq_def aligned_0 init_def DQBLOCK_SIZE_def splice_front_def merge_front_def
      empty_dq_def ebind_def ticket_lock_def ticket_unlock_def Let_def)

theorem bulkDealloc_moves_whole_blocks_witness:
  "\<exists>this' src'. CentralFreeList_bulkDealloc cfl1 src33 33 = Inr (this', src')
      \<and> unat (size_dq (freeChunks this')) = 32 \<and> unat (size_dq src') = 1"
  using bulkDealloc_moves_whole_blocks[OF src33_facts]
  by (simp add: DQBLOCK_SIZE_def src33_def cfl1_def zero_CentralFreeList_def size_dq_def init_def)

section \<open>Properties of the internal interface\<close>

text \<open>
  C5. For every state and every address \<open>p\<close>, \<open>valid_chunk(p)\<close> is true iff
  \<open>trackedBase <= p <= trackedBump\<close>, the upper bound included. The one
  address it accepts outside the reserved bytes \<open>[trackedBase, trackedBump)\<close>
  is the bump pointer itself; it is false for every address past
  \<open>trackedBump\<close> (\<open>trackedBump + 1 + n\<close>) and for every address below
  \<open>trackedBase\<close> (\<open>trackedBase - 1 - n\<close>).
\<close>

theorem valid_chunk_closed_range:
  "valid_chunk gs p = (trackedBase \<le> p \<and> p \<le> trackedBump gs)
   \<and> (valid_chunk gs p \<and> \<not> (trackedBase \<le> p \<and> p < trackedBump gs))
       = (trackedBase \<le> p \<and> p = trackedBump gs)
   \<and> \<not> valid_chunk gs (trackedBump gs + 1 + n)
   \<and> \<not> valid_chunk gs (trackedBase - 1 - n)"
  by (auto simp add: valid_chunk_def trackedBase_def)

text \<open>
  With the strict bound \<open>p < trackedBump\<close> the equivalence fails: right after
  the bootstrap nothing is reserved (\<open>trackedBump = trackedBase\<close>), the range
  \<open>[trackedBase, trackedBump)\<close> is empty, and \<open>valid_chunk(trackedBase)\<close> is
  true.
\<close>

theorem valid_chunk_at_bump:
  "trackedBump gs_boot = trackedBase
   \<and> valid_chunk gs_boot trackedBase
   \<and> \<not> (trackedBase \<le> trackedBase \<and> trackedBase < trackedBump gs_boot)"
  by (simp add: gs_boot_def plsalloc_init_def zero_AllocState_def valid_chunk_def Let_def)

lemma init_class_at:
  "init_class c' cls c =
     (if c = c' then CentralFreeList_ctor (ucast (classToSize (of_nat c)))
                       (min (ucast DQBLOCK_SIZE) (max (ucast (kFetchTargetSize div classToSize (of_nat c))) 2))
                       (cls c)
      else cls c)"
  by (simp add: init_class_def Let_def)

lemma ctor_idem:
  "CentralFreeList_ctor a b (CentralFreeList_ctor a b m) = CentralFreeList_ctor a b m"
  by (simp add: CentralFreeList_ctor_def)

lemma fold_init_class:
  "fold init_class cs cls c = (if c \<in> set cs then init_class c cls c else cls c)"
  by (induction cs arbitrary: cls) (auto simp: init_class_at ctor_idem)

lemma classLists_init:
  "\<not> initialized gs \<Longrightarrow>
   classLists (plsalloc_init n gs) c =
     (if 1 \<le> c \<and> c < 256 then init_class c (\<lambda>c. zero_CentralFreeList) c else zero_CentralFreeList)"
  by (simp add: plsalloc_init_def Let_def fold_init_class kMaxClasses_def)

lemma unat_min_word: "unat (min a b :: 'a::len word) = min (unat a) (unat b)"
  by (simp add: min_def word_le_nat_alt)

lemma unat_max_word: "unat (max a b :: 'a::len word) = max (unat a) (unat b)"
  by (simp add: max_def word_le_nat_alt)

lemma classToSize_unat:
  assumes "c < 256"
  shows "unat (classToSize (of_nat c)) = 64 * c"
proof -
  have "unat (of_nat c :: 64 word) = c"
    using assms by (simp add: unat_of_nat)
  moreover have "unat (push_bit 6 (of_nat c :: 64 word)) = (64 * unat (of_nat c :: 64 word)) mod 2 ^ 64"
    by (simp add: push_bit_eq_mult unat_word_ariths mult.commute)
  ultimately show ?thesis
    using assms by (simp add: classToSize_def)
qed

lemma epf_init:
  assumes "1 \<le> c" and "c < 256"
  shows "unat (elemsPerFetch (init_class c cls c)) = min 32 (max (32768 div (64 * c)) 2)"
    and "unat (chunkSize (init_class c cls c)) = 64 * c"
proof -
  have cs: "unat (classToSize (of_nat c)) = 64 * c"
    using assms(2) by (rule classToSize_unat)
  have d: "unat (kFetchTargetSize div classToSize (of_nat c)) = 32768 div (64 * c)"
    by (simp add: unat_div cs kFetchTargetSize_def)
  have "32768 div (64 * c) \<le> 32768" by (rule div_le_dividend)
  then have u: "unat (ucast (kFetchTargetSize div classToSize (of_nat c)) :: 32 word) = 32768 div (64 * c)"
    using d by (simp add: unsigned_ucast_eq take_bit_eq_mod)
  show "unat (elemsPerFetch (init_class c cls c)) = min 32 (max (32768 div (64 * c)) 2)"
    by (simp add: init_class_at CentralFreeList_ctor_def unat_min_word unat_max_word u DQBLOCK_SIZE_def)
  show "unat (chunkSize (init_class c cls c)) = 64 * c"
    using cs assms(2) by (simp add: init_class_at CentralFreeList_ctor_def unsigned_ucast_eq take_bit_eq_mod)
qed

text \<open>
  C6 (as amended). For every class \<open>cl\<close> in \<open>[1, 255]\<close> the bootstrap
  constructs the central free list of class \<open>cl\<close> with \<open>elemsPerFetch\<close> equal
  to \<open>32768 div (64 * cl)\<close>, the quotient rounded down, clamped to \<open>[2, 32]\<close>.
\<close>

theorem elemsPerFetch_init:
  assumes "\<not> initialized gs" and "1 \<le> cl" and "cl \<le> 255"
  shows "unat (elemsPerFetch (classLists (plsalloc_init n gs) cl)) = min 32 (max (32768 div (64 * cl)) 2)"
  using assms epf_init(1)[of cl] by (simp add: classLists_init)

theorem elemsPerFetch_init_witness:
  "\<not> initialized zero_AllocState \<and> (1::nat) \<le> 17 \<and> (17::nat) \<le> 255
   \<and> unat (elemsPerFetch (classLists (plsalloc_init 16924928 zero_AllocState) 17)) = 30"
  using elemsPerFetch_init[of zero_AllocState 17 16924928]
  by (simp add: zero_AllocState_def)

text \<open>
  C6, the claim as stated fails at class 17: \<open>32768 / 1088\<close> is 30.1, the code
  fetches 30 and the ceiling is 31.
\<close>

theorem elemsPerFetch_not_ceiling:
  "unat (elemsPerFetch (classLists gs_boot 17)) = 30 \<and> elemsPerFetch_spec 17 = 31"
  using epf_init(1)[of 17 "\<lambda>c. zero_CentralFreeList"]
  by (simp add: gs_boot_def classLists_init zero_AllocState_def elemsPerFetch_spec_def)

text \<open>
  C7. \<open>sizeToClass\<close> adds 63 before shifting, and the sum wraps for the top 63
  values of \<open>size_t\<close>: the request \<open>2^64 - 1\<close> gets class 0, is not large, and
  \<open>do_alloc\<close> sends it to the thread cache, where the empty list of class 0
  is dequeued through a null \<open>btail\<close>.
\<close>

theorem sizeToClass_wraps:
  "sizeToClass (- 1) = 0 \<and> \<not> isLargeAlloc (- 1)
   \<and> do_alloc 16924928 0 0 gs_boot (- 1) = Inl NullDeref"
proof -
  have c: "sizeToClass (- 1) = 0"
    by (simp add: sizeToClass_def)
  have l: "\<not> isLargeAlloc (- 1)"
    by (simp add: isLargeAlloc_def c kMaxClasses_def)
  have i: "initialized gs_boot" "classLists gs_boot 0 = zero_CentralFreeList"
    "threadCaches gs_boot 0 = \<lparr>cacheSize = 0, classLists_tc = (\<lambda>c. init)\<rparr>"
    by (simp_all add: gs_boot_def classLists_init zero_AllocState_def)
       (simp_all add: plsalloc_init_def Let_def ThreadCache_ctor_def)
  have b: "CentralFreeList_bulkAlloc gs_boot 0 init
           = Inr (init, gs_boot\<lparr>classLists := (classLists gs_boot)
                  (0 := zero_CentralFreeList\<lparr>lock := \<lparr>next_ticket = 1, serving = 1\<rparr>\<rparr>)\<rparr>)"
    by (simp add: CentralFreeList_bulkAlloc_def i zero_CentralFreeList_def ticket_lock_def
        ticket_unlock_def ebind_def Let_def size_dq_def init_def DQBLOCK_SIZE_def)
  show ?thesis
    by (simp add: c l do_alloc_def i kMaxThreads_def ThreadCache_alloc_def kMaxClasses_def b
        ebind_def Let_def empty_dq_def dequeue_back_def)
       (simp add: init_def)
qed

text \<open>
  C9. For every pointer \<open>p\<close> whose page has class 0 in the sizemap and which
  is not a key of \<open>chunkSizes\<close>, \<open>chunk_size(p)\<close> returns 0 without aborting
  and leaves \<open>chunkSizes\<close> and \<open>freeChunkSets\<close> as they were (the call takes
  and releases the heap's lock, which nobody holds).
\<close>

theorem chunk_size_untracked:
  assumes "mutex_free (lock_lh (largeHeap gs))" and "chunkToClass gs p = 0"
    and "map_of (chunkSizes (largeHeap gs)) p = None"
  shows "\<exists>gs'. chunk_size gs p = Inr (0, gs')
           \<and> chunkSizes (largeHeap gs') = chunkSizes (largeHeap gs)
           \<and> freeChunkSets (largeHeap gs') = freeChunkSets (largeHeap gs)"
  using assms
  by (simp add: chunk_size_def chunkToSize_noassert_def mutex_free_def ticket_lock_def ebind_def Let_def)

theorem chunk_size_untracked_witness:
  "mutex_free (lock_lh (largeHeap gs_boot)) \<and> chunkToClass gs_boot trackedBase = 0
   \<and> map_of (chunkSizes (largeHeap gs_boot)) trackedBase = None
   \<and> (\<exists>gs'. chunk_size gs_boot trackedBase = Inr (0, gs')
           \<and> chunkSizes (largeHeap gs') = chunkSizes (largeHeap gs_boot)
           \<and> freeChunkSets (largeHeap gs') = freeChunkSets (largeHeap gs_boot))"
proof -
  have h: "mutex_free (lock_lh (largeHeap gs_boot))" "chunkToClass gs_boot trackedBase = 0"
    "map_of (chunkSizes (largeHeap gs_boot)) trackedBase = None"
    by (simp_all add: gs_boot_def plsalloc_init_def zero_AllocState_def Let_def LargeHeap_ctor_def
        ticket_init_def mutex_free_def chunkToClass_def)
  from chunk_size_untracked[OF h] h show ?thesis by blast
qed

section \<open>Properties of the region provider\<close>

lemma div_succ_times: "(d::nat) < (d div m + 1) * m" if "0 < m"
  using that by (metis Suc_eq_plus1 dividend_less_div_times add.commute mult.commute mult_Suc)

lemma allocContiguous_ok:
  "\<exists>e. allocContiguous sz bump endp = Inr (bump, bump + unat sz, e)"
proof -
  have "\<not> endp + ((bump + unat sz - endp) div 2 ^ 21 + 1) * 2 ^ 21 < bump + unat sz"
    using div_succ_times[of "2 ^ 21" "bump + unat sz - endp"] by simp
  then show ?thesis by (simp add: allocContiguous_def Let_def)
qed

lemma sysAlloc_result:
  assumes "sysAlloc gs chunkSz = Inr ((a, b), gs')"
  shows "a = trackedBump gs \<and> b = a + unat (allocSize_of chunkSz)
         \<and> chunkSz \<le> allocSize_of chunkSz \<and> trackedBump gs' = b
         \<and> classLists gs' = classLists gs \<and> threadCaches gs' = threadCaches gs
         \<and> largeHeap gs' = largeHeap gs \<and> initialized gs' = initialized gs"
proof -
  obtain e1 where a1: "allocContiguous (allocSize_of chunkSz) (trackedBump gs) (trackedEnd gs)
      = Inr (trackedBump gs, trackedBump gs + unat (allocSize_of chunkSz), e1)"
    using allocContiguous_ok by blast
  obtain e2 where a2: "allocContiguous (max 32 (sizeToPages chunkSz)) (sizemapBump gs) (sizemapEnd gs)
      = Inr (sizemapBump gs, sizemapBump gs + unat (max 32 (sizeToPages chunkSz)), e2)"
    using allocContiguous_ok by blast
  show ?thesis
    using assms a1 a2
    by (auto simp: sysAlloc_def Let_def allocSize_of_def ebind_def ticket_lock_def
        split: if_splits)
qed

lemma sysAlloc_ok:
  assumes "mutex_free (sysAllocLock gs)" and "chunkSz \<le> allocSize_of chunkSz"
  shows "\<exists>a b gs'. sysAlloc gs chunkSz = Inr ((a, b), gs') \<and> mutex_free (sysAllocLock gs')"
proof -
  obtain e1 where a1: "allocContiguous (allocSize_of chunkSz) (trackedBump gs) (trackedEnd gs)
      = Inr (trackedBump gs, trackedBump gs + unat (allocSize_of chunkSz), e1)"
    using allocContiguous_ok by blast
  obtain e2 where a2: "allocContiguous (max 32 (sizeToPages chunkSz)) (sizemapBump gs) (sizemapEnd gs)
      = Inr (sizemapBump gs, sizemapBump gs + unat (max 32 (sizeToPages chunkSz)), e2)"
    using allocContiguous_ok by blast
  show ?thesis
    using assms a1 a2
    by (simp add: sysAlloc_def Let_def allocSize_of_def[symmetric] ebind_def ticket_lock_def
        ticket_unlock_def mutex_free_def)
qed

lemma allocSize_small:
  assumes "unat chunkSz < 2 ^ 32"
  shows "chunkSz \<le> allocSize_of chunkSz" and "2 ^ 20 \<le> unat (allocSize_of chunkSz)"
proof -
  let ?s = "unat chunkSz"
  have u1: "unat (chunkSz + kPageSize - 1) = ?s + 32767"
  proof -
    have k: "kPageSize = 32768" by (simp add: kPageSize_def kPageBits_def)
    have e: "chunkSz + kPageSize - 1 = chunkSz + 32767" unfolding k by simp
    have "unat (chunkSz + 32767) = ?s + 32767"
      using assms by (simp add: unat_word_ariths)
    then show ?thesis by (simp only: e)
  qed
  have u2: "unat (sizeToPages chunkSz) = (?s + 32767) div 32768"
    by (simp add: sizeToPages_def drop_bit_eq_div kPageBits_def unat_div u1)
  let ?p = "max 32 ((?s + 32767) div 32768)"
  have u3: "unat (max 32 (sizeToPages chunkSz)) = ?p"
    by (simp add: unat_max_word u2)
  have "(?s + 32767) div 32768 \<le> (2 ^ 32 + 32767) div 32768"
    using assms by (intro div_le_mono) simp
  then have pb: "?p \<le> 2 ^ 17 + 1" by simp
  then have "?p * 32768 < 2 ^ 64" by simp
  then have u4: "unat (allocSize_of chunkSz) = ?p * 32768"
    by (simp add: allocSize_of_def push_bit_eq_mult unat_word_ariths u3 kPageBits_def)
  have "?s + 32767 < ((?s + 32767) div 32768 + 1) * 32768"
    using div_succ_times[of 32768 "?s + 32767"] by simp
  then have "?s \<le> ((?s + 32767) div 32768) * 32768" by simp
  also have "\<dots> \<le> ?p * 32768" by (intro mult_le_mono1) simp
  finally have "?s \<le> ?p * 32768" .
  then show "chunkSz \<le> allocSize_of chunkSz" by (simp add: word_le_nat_alt u4)
  have "32 * 32768 \<le> ?p * 32768" by (intro mult_le_mono1) simp
  then show "2 ^ 20 \<le> unat (allocSize_of chunkSz)" by (simp add: u4)
qed

lemma unat_ucast_32_64: "unat (ucast (w :: 32 word) :: 64 word) = unat w"
proof -
  have "unat w < 2 ^ 32" using unsigned_less[of w] by simp
  then have "unat w < 2 ^ 64" by simp
  then show ?thesis by (simp add: unsigned_ucast_eq take_bit_nat_eq_self)
qed

lemma blocksize_32: "(ucast DQBLOCK_SIZE :: 32 word) = 32"
  by (simp add: DQBLOCK_SIZE_def)

lemma wfd_empty_size: "wfd d \<Longrightarrow> blocks d = [] \<Longrightarrow> unat (size_dq d) = 0"
  using wfd_blocks_Nil[of d] by simp

lemma bulkAlloc_ok:
  assumes ok: "cfl_ok c (classLists gs c)" and c0: "0 < c"
    and sys: "mutex_free (sysAllocLock gs)"
    and wd: "wfd dst" and ed: "blocks dst = []"
  shows "\<exists>dst' gs'. CentralFreeList_bulkAlloc gs c dst = Inr (dst', gs')
           \<and> wfd dst' \<and> 1 \<le> unat (size_dq dst') \<and> unat (size_dq dst') \<le> 32
           \<and> cfl_ok c (classLists gs' c)
           \<and> (\<forall>c'. c' \<noteq> c \<longrightarrow> classLists gs' c' = classLists gs c')
           \<and> threadCaches gs' = threadCaches gs
           \<and> mutex_free (sysAllocLock gs')
           \<and> unat (size_dq (freeChunks (classLists gs' c))) + unat (size_dq dst')
               \<le> unat (size_dq (freeChunks (classLists gs c))) + 32"
proof -
  let ?cl = "classLists gs c"
  let ?fc = "freeChunks ?cl"
  let ?e = "unat (elemsPerFetch ?cl)" and ?cs = "unat (chunkSize ?cl)"
  have wf: "wfd ?fc" and mf: "mutex_free (lock ?cl)"
    and cs: "?cs = 64 * c" and e2: "2 \<le> ?e" and e32: "?e \<le> 32" and prod: "64 * c * ?e \<le> 32768"
    using ok c0 by (simp_all add: cfl_ok_def)
  obtain l where lk: "ticket_lock (lock ?cl) = Inr l" and fr: "mutex_free (ticket_unlock l)"
    using lock_unlock[OF mf] by blast
  have d0: "unat (size_dq dst) = 0" using wd ed by (rule wfd_empty_size)
  have cmp: "ucast (elemsPerFetch ?cl) \<le> size_dq ?fc \<longleftrightarrow> ?e \<le> unat (size_dq ?fc)"
    by (simp add: word_le_nat_alt unat_ucast_32_64)
  have cmp32: "ucast DQBLOCK_SIZE \<le> elemsPerFetch ?cl \<longleftrightarrow> 32 \<le> ?e"
    by (simp add: blocksize_32 word_le_nat_alt)
  show ?thesis
  proof (cases "?e \<le> unat (size_dq ?fc)")
    case True
    show ?thesis
    proof (cases "32 \<le> ?e")
      case big: True
      then have "32 \<le> unat (size_dq ?fc)" using True by simp
      then obtain fc' dst' where st: "steal_front ?fc = (fc', dst')" and "wfd fc'" "wfd dst'"
        and "unat (size_dq dst') = 32" "unat (size_dq fc') = unat (size_dq ?fc) - 32"
        using steal_front_wfd[OF wf] by blast
      moreover have "CentralFreeList_bulkAlloc gs c dst
          = Inr (dst', gs\<lparr>classLists := (classLists gs)
                   (c := ?cl\<lparr>freeChunks := fc', lock := ticket_unlock l\<rparr>)\<rparr>)"
        using True big by (simp add: CentralFreeList_bulkAlloc_def Let_def lk ebind_def cmp cmp32 st)
      ultimately show ?thesis
        using fr ok c0 sys \<open>32 \<le> unat (size_dq ?fc)\<close> by (simp add: cfl_ok_def)
    next
      case small: False
      have rm: "unat (size_dq dst) + ?e < 2 ^ 64" using d0 e32 by simp
      obtain fc' dst' where mv: "move_back ?e ?fc dst = Inr (fc', dst')" and "wfd fc'" "wfd dst'"
        and "unat (size_dq fc') = unat (size_dq ?fc) - ?e"
        and "unat (size_dq dst') = unat (size_dq dst) + ?e"
        using move_back_wfd[OF wf wd True rm] by blast
      moreover have "CentralFreeList_bulkAlloc gs c dst
          = Inr (dst', gs\<lparr>classLists := (classLists gs)
                   (c := ?cl\<lparr>freeChunks := fc', lock := ticket_unlock l\<rparr>)\<rparr>)"
        using True small by (simp add: CentralFreeList_bulkAlloc_def Let_def lk ebind_def cmp cmp32 mv)
      ultimately show ?thesis
        using fr ok c0 sys True d0 e2 e32 by (simp add: cfl_ok_def)
    qed
  next
    case False
    have "?cs * ?e < 2 ^ LENGTH(32)" using prod cs by simp
    then have "unat (chunkSize ?cl * elemsPerFetch ?cl) = ?cs * ?e"
      by (simp only: unat_mult_lem)
    then have fetch: "unat (chunkSize ?cl * elemsPerFetch ?cl) = 64 * c * ?e"
      using cs by simp
    have csn: "chunkSize ?cl \<noteq> 0" using cs c0 by (auto simp: unat_eq_0[symmetric] simp del: unat_eq_0)
    have small: "unat (ucast (chunkSize ?cl) :: 64 word) < 2 ^ 32"
      using unsigned_less[of "chunkSize ?cl"] by (simp add: unat_ucast_32_64)
    obtain start endp gs1 where
      br: "(if bumpStart ?cl + ?cs \<le> bumpEnd ?cl
            then Inr ((bumpStart ?cl, bumpEnd ?cl), gs)
            else sysAlloc gs (ucast (chunkSize ?cl))) = Inr ((start, endp), gs1)"
      and cl1: "classLists gs1 = classLists gs" and th1: "threadCaches gs1 = threadCaches gs"
      and sy1: "mutex_free (sysAllocLock gs1)" and room: "start + ?cs \<le> endp"
      and big: "\<not> (bumpStart ?cl + ?cs \<le> bumpEnd ?cl) \<longrightarrow> start + 2 ^ 20 \<le> endp"
    proof (cases "bumpStart ?cl + ?cs \<le> bumpEnd ?cl")
      case True
      then show ?thesis using that[of "bumpStart ?cl" "bumpEnd ?cl" gs] sys by simp
    next
      case nb: False
      obtain a b gs' where sa: "sysAlloc gs (ucast (chunkSize ?cl)) = Inr ((a, b), gs')"
        and m: "mutex_free (sysAllocLock gs')"
        using sysAlloc_ok[OF sys allocSize_small(1)[OF small]] by blast
      have r: "b = a + unat (allocSize_of (ucast (chunkSize ?cl)))"
        "classLists gs' = classLists gs" "threadCaches gs' = threadCaches gs"
        using sysAlloc_result[OF sa] by simp_all
      have "1 \<le> ?e" using e2 by simp
      then have "c * 1 \<le> c * ?e" by (rule mult_le_mono2)
      then have ce: "c \<le> c * ?e" by simp
      have "c * ?e \<le> 512" using prod by simp
      with ce have "c \<le> 512" by (rule le_trans)
      then have cs20: "?cs \<le> 2 ^ 20" using cs by simp
      have "2 ^ 20 \<le> unat (allocSize_of (ucast (chunkSize ?cl)))"
        using allocSize_small(2)[OF small] .
      with cs20 have "a + ?cs \<le> b" "a + 2 ^ 20 \<le> b" using r(1) by simp_all
      then show ?thesis using that[of a b gs'] nb sa m r(2,3) by simp
    qed
    let ?gs2 = "gs1\<lparr>classLists := (classLists gs1)
                   (c := ?cl\<lparr>bumpStart := start + 64 * c * ?e, bumpEnd := endp,
                               lock := ticket_unlock l\<rparr>)\<rparr>"
    obtain k where kend: "(if 64 * c * ?e < endp - start then Inr (start + 64 * c * ?e)
                           else if chunkSize ?cl = 0 then Inl DivByZero
                           else Inr (start + ?cs * ((endp - start) div ?cs)))
                          = (Inr (start + ?cs * k) :: error + nat)"
      and k1: "1 \<le> k" and k32: "k \<le> 32"
    proof (cases "64 * c * ?e < endp - start")
      case True
      then show ?thesis using that[of ?e] e2 e32 cs by (simp add: mult.assoc)
    next
      case nf: False
      have le: "endp - start \<le> ?cs * ?e" using nf cs by simp
      have "?cs \<le> endp - start" using room by simp
      then have "?cs div ?cs \<le> (endp - start) div ?cs" by (rule div_le_mono)
      then have a: "1 \<le> (endp - start) div ?cs" using cs c0 by simp
      have "(endp - start) div ?cs \<le> (?cs * ?e) div ?cs" using le by (rule div_le_mono)
      then have b: "(endp - start) div ?cs \<le> 32" using cs c0 e32 by simp
      show ?thesis using that[of "(endp - start) div ?cs"] nf csn a b by simp
    qed
    have rm: "unat (size_dq dst) + k < 2 ^ 64" using d0 k32 by simp
    have cpos: "0 < ?cs" using cs c0 by simp
    obtain dst' where pr: "push_range start (start + ?cs * k) ?cs dst = Inr dst'"
      and wd': "wfd dst'" and ud: "unat (size_dq dst') = unat (size_dq dst) + k"
      using push_range_wfd[OF wd cpos rm] by blast
    have "CentralFreeList_bulkAlloc gs c dst = Inr (dst', ?gs2)"
      using False
      by (simp add: CentralFreeList_bulkAlloc_def Let_def lk cmp br fetch kend pr ebind_def
          del: push_range.simps)
    then show ?thesis
      using wd' ud d0 k1 k32 fr ok c0 cl1 th1 sy1 by (simp add: cfl_ok_def)
  qed
qed

section \<open>Properties of the thread cache\<close>

lemma cache_sum_upd:
  assumes "c < 256"
  shows "cache_sum (tc\<lparr>classLists_tc := (classLists_tc tc)(c := d), cacheSize := x\<rparr>)
         = cache_sum tc - size_dq (classLists_tc tc c) * classToSize (of_nat c)
           + size_dq d * classToSize (of_nat c)"
proof -
  let ?A = "{..<256::nat}"
  let ?g = "\<lambda>c. size_dq (classLists_tc tc c) * classToSize (of_nat c)"
  let ?g' = "\<lambda>k. size_dq (((classLists_tc tc)(c := d)) k) * classToSize (of_nat k)"
  have in_A: "c \<in> ?A" using assms by simp
  have "sum ?g' ?A = ?g' c + sum ?g' (?A - {c})" by (rule sum.remove) (use assms in simp_all)
  also have "sum ?g' (?A - {c}) = sum ?g (?A - {c})" by (rule sum.cong) simp_all
  finally have 1: "sum ?g' ?A = size_dq d * classToSize (of_nat c) + sum ?g (?A - {c})" by simp
  have 2: "sum ?g ?A = ?g c + sum ?g (?A - {c})" by (rule sum.remove) (use assms in simp_all)
  show ?thesis unfolding cache_sum_def using 1 2 by simp
qed

lemma count_split:
  assumes "t < kMaxThreads"
  shows "count gs c = unat (size_dq (freeChunks (classLists gs c))) + cached gs c t
           + (\<Sum>t'\<in>{..<kMaxThreads} - {t}. cached gs c t')"
proof -
  have "(\<Sum>t'<kMaxThreads. cached gs c t') = cached gs c t + (\<Sum>t'\<in>{..<kMaxThreads} - {t}. cached gs c t')"
    by (rule sum.remove) (simp_all add: assms)
  then show ?thesis by (simp add: count_def)
qed

lemma others_cong:
  assumes "\<And>t'. t' \<noteq> t \<Longrightarrow> threadCaches gs' t' = threadCaches gs t'"
  shows "(\<Sum>t'\<in>{..<kMaxThreads} - {t}. cached gs' c t') = (\<Sum>t'\<in>{..<kMaxThreads} - {t}. cached gs c t')"
  by (rule sum.cong) (simp_all add: cached_def assms)

lemma cached_le_count: "t < kMaxThreads \<Longrightarrow> cached gs c t \<le> count gs c"
  by (simp add: count_split[of t])

lemma fc_cached_le_count:
  "t < kMaxThreads \<Longrightarrow> unat (size_dq (freeChunks (classLists gs c))) + cached gs c t \<le> count gs c"
  by (simp add: count_split[of t])

lemma count_other_class:
  assumes "classLists gs' c' = classLists gs c'"
    and "\<And>t'. classLists_tc (threadCaches gs' t') c' = classLists_tc (threadCaches gs t') c'"
  shows "count gs' c' = count gs c'"
  by (simp add: count_def cached_def assms)

lemma class_index:
  assumes "cl \<noteq> 0" and "cl < kMaxClasses"
  shows "0 < unat cl" and "unat cl < 256" and "\<not> kMaxClasses \<le> cl"
proof -
  show "0 < unat cl" using assms(1) by (simp add: unat_gt_0)
  show "unat cl < 256" using assms(2) by (simp add: kMaxClasses_def word_less_nat_alt)
  show "\<not> kMaxClasses \<le> cl" using assms(2) by (simp add: not_le)
qed

lemma ThreadCache_alloc_ok:
  assumes inv: "alloc_inv gs" and t: "t < kMaxThreads" and cn: "cl \<noteq> 0"
    and cm: "cl < kMaxClasses" and bd: "bounded n gs"
  shows "\<exists>res gs'. ThreadCache_alloc gs t cl = Inr (res, gs') \<and> alloc_inv gs'
           \<and> bounded (Suc n) gs'"
proof -
  let ?c = "unat cl"
  let ?tc = "threadCaches gs t"
  let ?d = "classLists_tc ?tc ?c"
  let ?w = "classToSize cl"
  have c0: "0 < ?c" and c256: "?c < 256" and nb: "\<not> kMaxClasses \<le> cl"
    using class_index[OF cn cm] by simp_all
  have cfl: "\<And>c. c < 256 \<Longrightarrow> cfl_ok c (classLists gs c)"
    and thr: "\<And>t'. t' < kMaxThreads \<Longrightarrow> tc_wf (threadCaches gs t')
                 \<and> cacheSize (threadCaches gs t') = cache_sum (threadCaches gs t')"
    and sys: "mutex_free (sysAllocLock gs)"
    using inv by (simp_all add: alloc_inv_def)
  have wtc: "\<And>c. c < 256 \<Longrightarrow> wfd (classLists_tc ?tc c)" and ceq: "cacheSize ?tc = cache_sum ?tc"
    using thr[OF t] by (simp_all add: tc_wf_def)
  have wd: "wfd ?d" using wtc c256 by simp
  obtain d1 x1 gs1 where
    ph1: "ThreadCache_alloc gs t cl
          = ebind (dequeue_back d1) (\<lambda>(res, d).
              Inr (res, gs1\<lparr>threadCaches := (threadCaches gs1)
                     (t := ?tc\<lparr>classLists_tc := (classLists_tc ?tc)(?c := d),
                              cacheSize := x1 - ?w\<rparr>)\<rparr>))"
    and x1: "x1 = cache_sum ?tc - size_dq ?d * ?w + size_dq d1 * ?w"
    and wd1: "wfd d1" and nz1: "size_dq d1 \<noteq> 0"
    and cfl1: "cfl_ok ?c (classLists gs1 ?c)"
    and oth1: "\<And>c'. c' \<noteq> ?c \<Longrightarrow> classLists gs1 c' = classLists gs c'"
    and th1: "threadCaches gs1 = threadCaches gs"
    and sys1: "mutex_free (sysAllocLock gs1)"
    and cnt1: "unat (size_dq (freeChunks (classLists gs1 ?c))) + unat (size_dq d1)
                 \<le> unat (size_dq (freeChunks (classLists gs ?c))) + unat (size_dq ?d) + 32"
  proof (cases "blocks ?d = []")
    case True
    obtain dst' gs' where ba: "CentralFreeList_bulkAlloc gs ?c ?d = Inr (dst', gs')"
      and a1: "wfd dst'" and a2: "1 \<le> unat (size_dq dst')"
      and a3: "cfl_ok ?c (classLists gs' ?c)"
      and a4: "\<forall>c'. c' \<noteq> ?c \<longrightarrow> classLists gs' c' = classLists gs c'"
      and a5: "threadCaches gs' = threadCaches gs" and a6: "mutex_free (sysAllocLock gs')"
      and a7: "unat (size_dq (freeChunks (classLists gs' ?c))) + unat (size_dq dst')
           \<le> unat (size_dq (freeChunks (classLists gs ?c))) + 32"
      using bulkAlloc_ok[OF cfl[OF c256] c0 sys wd True] by (elim exE conjE) (rule that)
    have z: "size_dq ?d = 0" using wd True wfd_blocks_Nil by blast
    have nz: "size_dq dst' \<noteq> 0" using a2 by (auto simp: unat_gt_0[symmetric] simp del: unat_gt_0)
    show ?thesis
    proof (rule that[of dst' gs' "cacheSize ?tc + ?w * size_dq dst'"])
      show "ThreadCache_alloc gs t cl
          = ebind (dequeue_back dst') (\<lambda>(res, d).
              Inr (res, gs'\<lparr>threadCaches := (threadCaches gs')
                     (t := ?tc\<lparr>classLists_tc := (classLists_tc ?tc)(?c := d),
                              cacheSize := cacheSize ?tc + ?w * size_dq dst' - ?w\<rparr>)\<rparr>))"
        unfolding ThreadCache_alloc_def Let_def using nb True
        by (simp add: empty_dq_def ba ebind_def split: sum.split)
      show "cacheSize ?tc + ?w * size_dq dst' = cache_sum ?tc - size_dq ?d * ?w + size_dq dst' * ?w"
        unfolding z ceq by simp
      show "unat (size_dq (freeChunks (classLists gs' ?c))) + unat (size_dq dst')
                 \<le> unat (size_dq (freeChunks (classLists gs ?c))) + unat (size_dq ?d) + 32"
        using a7 by simp
      show "\<And>c'. c' \<noteq> ?c \<Longrightarrow> classLists gs' c' = classLists gs c'" using a4 by blast
    qed (rule a1 nz a3 a5 a6)+
  next
    case False
    have nz: "size_dq ?d \<noteq> 0" using wd False wfd_blocks_Nil by blast
    show ?thesis
    proof (rule that[of ?d gs "cacheSize ?tc"])
      show "ThreadCache_alloc gs t cl
          = ebind (dequeue_back ?d) (\<lambda>(res, d).
              Inr (res, gs\<lparr>threadCaches := (threadCaches gs)
                     (t := ?tc\<lparr>classLists_tc := (classLists_tc ?tc)(?c := d),
                              cacheSize := cacheSize ?tc - ?w\<rparr>)\<rparr>))"
        unfolding ThreadCache_alloc_def Let_def using nb False
        by (simp add: empty_dq_def ebind_def split: sum.split)
      show "cacheSize ?tc = cache_sum ?tc - size_dq ?d * ?w + size_dq ?d * ?w"
        unfolding ceq by simp
    qed (use nz wd cfl[OF c256] sys in simp_all)
  qed
  let ?tc1 = "?tc\<lparr>classLists_tc := (classLists_tc ?tc)(?c := d1), cacheSize := x1\<rparr>"
  obtain res d2 where dq: "dequeue_back d1 = Inr (res, d2)" and wd2: "wfd d2"
    and s2: "size_dq d2 = size_dq d1 - 1"
    using dequeue_back_wfd[OF wd1 nz1] by blast
  have u2: "unat (size_dq d2) = unat (size_dq d1) - 1" unfolding s2 using nz1 by (rule unat_pred)
  let ?tc2 = "?tc\<lparr>classLists_tc := (classLists_tc ?tc)(?c := d2), cacheSize := x1 - ?w\<rparr>"
  let ?gs' = "gs1\<lparr>threadCaches := (threadCaches gs1)(t := ?tc2)\<rparr>"
  have res: "ThreadCache_alloc gs t cl = Inr (res, ?gs')"
    unfolding ph1 by (simp add: ebind_def dq)
  have cs2: "cacheSize ?tc2 = cache_sum ?tc2"
    unfolding cache_sum_upd[OF c256] by (simp add: x1 s2 algebra_simps)
  have wf2: "tc_wf ?tc2" using wtc wd2 by (simp add: tc_wf_def)
  have inv': "alloc_inv ?gs'"
    unfolding alloc_inv_def
  proof (intro conjI allI impI)
    fix c :: nat assume "c < 256"
    then show "cfl_ok c (classLists ?gs' c)"
      using cfl1 oth1[of c] cfl[of c] by (cases "c = ?c") simp_all
  next
    fix t' assume "t' < kMaxThreads"
    then show "tc_wf (threadCaches ?gs' t')"
      using wf2 thr[of t'] th1 by (cases "t' = t") simp_all
  next
    fix t' assume "t' < kMaxThreads"
    then show "cacheSize (threadCaches ?gs' t') = cache_sum (threadCaches ?gs' t')"
      using cs2 thr[of t'] th1 by (cases "t' = t") simp_all
  next
    show "mutex_free (sysAllocLock ?gs')" using sys1 by simp
  qed
  have bd': "bounded (Suc n) ?gs'"
    unfolding bounded_def
  proof (intro allI impI)
    fix c assume c: "c < (256::nat)"
    show "count ?gs' c \<le> 32 * Suc n"
    proof (cases "c = ?c")
      case False
      have "count ?gs' c = count gs c"
        by (rule count_other_class) (use False oth1 th1 in simp_all)
      moreover have "count gs c \<le> 32 * n" using bd c by (simp add: bounded_def)
      ultimately show ?thesis by simp
    next
      case True
      have o: "(\<Sum>t'\<in>{..<kMaxThreads} - {t}. cached ?gs' ?c t')
               = (\<Sum>t'\<in>{..<kMaxThreads} - {t}. cached gs ?c t')"
        by (rule others_cong) (simp add: th1)
      have "count ?gs' ?c = unat (size_dq (freeChunks (classLists gs1 ?c))) + unat (size_dq d2)
              + (\<Sum>t'\<in>{..<kMaxThreads} - {t}. cached gs ?c t')"
        unfolding count_split[OF t, of ?gs'] o by (simp add: cached_def)
      also have "\<dots> \<le> unat (size_dq (freeChunks (classLists gs ?c))) + unat (size_dq ?d) + 32
              + (\<Sum>t'\<in>{..<kMaxThreads} - {t}. cached gs ?c t')"
        using cnt1 u2 by simp
      also have "\<dots> = count gs ?c + 32"
        unfolding count_split[OF t, of gs] by (simp add: cached_def)
      finally have "count ?gs' ?c \<le> count gs ?c + 32" .
      moreover have "count gs ?c \<le> 32 * n" using bd c256 by (simp add: bounded_def)
      ultimately show ?thesis using True by simp
    qed
  qed
  show ?thesis using res inv' bd' by blast
qed

lemma c_lt_conv: "32 * k < (n::nat) \<Longrightarrow> k < (n + 31) div 32"
proof -
  assume "32 * k < n"
  then have "32 * k + 32 \<le> n + 31" by simp
  then have "(32 * k + 32) div 32 \<le> (n + 31) div 32" by (rule div_le_mono)
  then show ?thesis by simp
qed

lemma donate_elems:
  assumes "(elems :: 64 word) \<noteq> 0"
  shows "unat ((elems + 1) div 2) \<le> unat elems"
    and "32 \<le> unat ((elems + 1) div 2) \<longrightarrow> 32 * (unat ((elems + 1) div 2) div 32) < unat elems"
proof -
  let ?n = "unat elems" and ?e = "unat ((elems + 1) div 2)"
  have n0: "0 < ?n" using assms by (simp add: unat_gt_0)
  have "unat (elems + 1) \<le> ?n + 1" by (simp add: unat_word_ariths)
  then have "unat (elems + 1) div 2 \<le> (?n + 1) div 2" by (rule div_le_mono)
  then have e: "?e \<le> (?n + 1) div 2" by (simp add: unat_div)
  then show "?e \<le> ?n" using n0 by linarith
  have k: "32 * (?e div 32) \<le> ?e" by simp
  show "32 \<le> ?e \<longrightarrow> 32 * (?e div 32) < ?n"
  proof
    assume "32 \<le> ?e"
    then have "(?n + 1) div 2 < ?n" using e by linarith
    then show "32 * (?e div 32) < ?n" using k e by linarith
  qed
qed

lemma donate_class_ok:
  assumes inv: "alloc_inv (wb t s)" and bd: "bounded m (wb t s)" and t: "t < kMaxThreads"
    and c0: "0 < c" and c256: "c < 256" and m: "32 * m < 2 ^ 64"
  shows "\<exists>s'. donate_class c s = Inr s' \<and> alloc_inv (wb t s') \<and> bounded m (wb t s')"
proof -
  obtain tc gs where s: "s = (tc, gs)" by (cases s)
  let ?G = "wb t s"
  let ?src = "classLists_tc tc c" and ?cl = "classLists gs c"
  let ?elems = "size_dq ?src"
  let ?w = "classToSize (of_nat c)"
  have G1: "classLists ?G = classLists gs" and G2: "threadCaches ?G t = tc"
    and G3: "\<And>t'. t' \<noteq> t \<Longrightarrow> threadCaches ?G t' = threadCaches gs t'"
    and G4: "sysAllocLock ?G = sysAllocLock gs"
    by (simp_all add: wb_def s)
  have cfl: "\<And>c. c < 256 \<Longrightarrow> cfl_ok c (classLists gs c)"
    and thr: "\<And>t'. t' < kMaxThreads \<Longrightarrow> tc_wf (threadCaches ?G t')
                 \<and> cacheSize (threadCaches ?G t') = cache_sum (threadCaches ?G t')"
    and sys: "mutex_free (sysAllocLock gs)"
    using inv unfolding alloc_inv_def G1 G4 by simp_all
  have wtc: "\<And>c. c < 256 \<Longrightarrow> wfd (classLists_tc tc c)" and ceq: "cacheSize tc = cache_sum tc"
    using thr[OF t] unfolding G2 by (simp_all add: tc_wf_def)
  show ?thesis
  proof (cases "?elems = 0")
    case True
    then have "donate_class c s = Inr s" by (simp add: donate_class_def s)
    then show ?thesis using inv bd by blast
  next
    case False
    let ?e = "(?elems + 1) div 2"
    have ws: "wfd ?src" using wtc c256 by simp
    have wf: "wfd (freeChunks ?cl)" and mf: "mutex_free (lock ?cl)"
      using cfl[OF c256] by (simp_all add: cfl_ok_def)
    have le: "unat ?e \<le> unat ?elems" using donate_elems(1)[OF False] .
    have len: "length (blocks ?src) = (unat ?elems + 31) div 32" using ws by (simp add: wfd_def)
    have blk: "32 \<le> unat ?e \<longrightarrow> unat ?e div 32 < length (blocks ?src)"
      unfolding len using donate_elems(2)[OF False] c_lt_conv by blast
    have cnt: "count ?G c = unat (size_dq (freeChunks ?cl)) + unat ?elems
                 + (\<Sum>t'\<in>{..<kMaxThreads} - {t}. cached ?G c t')"
      unfolding count_split[OF t, of ?G] by (simp add: cached_def G1 G2)
    have "count ?G c \<le> 32 * m" using bd c256 by (simp add: bounded_def)
    then have room: "unat (size_dq (freeChunks ?cl)) + unat ?e < 2 ^ 64"
      using cnt le m by linarith
    obtain fc l src' where
      bdl: "CentralFreeList_bulkDealloc ?cl ?src ?e = Inr (?cl\<lparr>freeChunks := fc, lock := l\<rparr>, src')"
      and wfc: "wfd fc" and ws': "wfd src'" and ml: "mutex_free l"
      and ufc: "unat (size_dq fc) = unat (size_dq (freeChunks ?cl)) + bulk_moved ?e"
      and usr: "unat (size_dq src') = unat ?elems - bulk_moved ?e"
      using bulkDealloc_ok[OF ws wf mf le blk room] by (elim exE conjE) (rule that)
    let ?tc' = "tc\<lparr>classLists_tc := (classLists_tc tc)(c := src'),
                    cacheSize := cacheSize tc - (?elems - size_dq src') * ?w\<rparr>"
    let ?gs' = "gs\<lparr>classLists := (classLists gs)(c := ?cl\<lparr>freeChunks := fc, lock := l\<rparr>)\<rparr>"
    let ?G' = "wb t (?tc', ?gs')"
    have dc: "donate_class c s = Inr (?tc', ?gs')"
      using False by (simp add: donate_class_def s Let_def bdl ebind_def)
    have cs': "cacheSize ?tc' = cache_sum ?tc'"
      unfolding cache_sum_upd[OF c256] by (simp add: ceq algebra_simps)
    have wf': "tc_wf ?tc'" using wtc ws' by (simp add: tc_wf_def)
    have ok': "cfl_ok c (?cl\<lparr>freeChunks := fc, lock := l\<rparr>)"
      using cfl[OF c256] wfc ml by (simp add: cfl_ok_def)
    have inv': "alloc_inv ?G'"
      unfolding alloc_inv_def
    proof (intro conjI allI impI)
      fix k :: nat assume "k < 256"
      then show "cfl_ok k (classLists ?G' k)"
        using ok' cfl[of k] by (cases "k = c") (simp_all add: wb_def)
    next
      fix t' assume t': "t' < kMaxThreads"
      show "tc_wf (threadCaches ?G' t')"
        using wf' thr[OF t'] G3[of t'] by (cases "t' = t") (simp_all add: wb_def)
    next
      fix t' assume t': "t' < kMaxThreads"
      show "cacheSize (threadCaches ?G' t') = cache_sum (threadCaches ?G' t')"
        using cs' thr[OF t'] G3[of t'] by (cases "t' = t") (simp_all add: wb_def)
    next
      show "mutex_free (sysAllocLock ?G')" using sys by (simp add: wb_def)
    qed
    have bd': "bounded m ?G'"
      unfolding bounded_def
    proof (intro allI impI)
      fix k :: nat assume k: "k < 256"
      have bk: "count ?G k \<le> 32 * m" using bd k by (simp add: bounded_def)
      show "count ?G' k \<le> 32 * m"
      proof (cases "k = c")
        case False
        have "count ?G' k = count ?G k"
          by (rule count_other_class) (use False in \<open>simp_all add: wb_def s\<close>)
        then show ?thesis using bk by simp
      next
        case True
        have o: "(\<Sum>t'\<in>{..<kMaxThreads} - {t}. cached ?G' c t')
               = (\<Sum>t'\<in>{..<kMaxThreads} - {t}. cached ?G c t')"
          by (rule others_cong) (simp add: wb_def s)
        have mv: "bulk_moved ?e \<le> unat ?elems" using bulk_moved_le[of ?e] le by simp
        have "count ?G' c = unat (size_dq fc) + unat (size_dq src')
              + (\<Sum>t'\<in>{..<kMaxThreads} - {t}. cached ?G c t')"
          unfolding count_split[OF t, of ?G'] o by (simp add: cached_def wb_def)
        also have "\<dots> = count ?G c" unfolding cnt ufc usr using mv by simp
        finally show ?thesis using bk True by simp
      qed
    qed
    show ?thesis using dc inv' bd' by blast
  qed
qed

lemma donate_ok:
  assumes "alloc_inv (wb t s)" and "bounded m (wb t s)" and "t < kMaxThreads"
    and "\<forall>c\<in>set cs. 0 < c \<and> c < 256" and "32 * m < 2 ^ 64"
  shows "\<exists>s'. donate cs s = Inr s' \<and> alloc_inv (wb t s') \<and> bounded m (wb t s')"
  using assms
proof (induction cs arbitrary: s)
  case Nil
  then show ?case by simp
next
  case (Cons c cs)
  have c: "0 < c" "c < 256" using Cons.prems(4) by simp_all
  obtain s1 where d1: "donate_class c s = Inr s1" and i1: "alloc_inv (wb t s1)"
    and b1: "bounded m (wb t s1)"
    using donate_class_ok[OF Cons.prems(1,2,3) c Cons.prems(5)] by blast
  have rest: "\<forall>c\<in>set cs. 0 < c \<and> c < 256" using Cons.prems(4) by simp
  obtain s' where "donate cs s1 = Inr s'" "alloc_inv (wb t s')" "bounded m (wb t s')"
    using Cons.IH[OF i1 b1 Cons.prems(3) rest Cons.prems(5)] by blast
  then show ?case by (simp add: d1 ebind_def)
qed

lemma ThreadCache_dealloc_ok:
  assumes inv: "alloc_inv gs" and t: "t < kMaxThreads" and cn: "cl \<noteq> 0"
    and cm: "cl < kMaxClasses" and bd: "bounded n gs" and n: "32 * Suc n < 2 ^ 64"
  shows "\<exists>gs'. ThreadCache_dealloc gs t p cl = Inr gs' \<and> alloc_inv gs' \<and> bounded (Suc n) gs'"
proof -
  let ?c = "unat cl"
  let ?tc = "threadCaches gs t"
  let ?d = "classLists_tc ?tc ?c"
  let ?w = "classToSize cl"
  have c0: "0 < ?c" and c256: "?c < 256" and nb: "\<not> kMaxClasses \<le> cl"
    using class_index[OF cn cm] by simp_all
  have cfl: "\<And>c. c < 256 \<Longrightarrow> cfl_ok c (classLists gs c)"
    and thr: "\<And>t'. t' < kMaxThreads \<Longrightarrow> tc_wf (threadCaches gs t')
                 \<and> cacheSize (threadCaches gs t') = cache_sum (threadCaches gs t')"
    and sys: "mutex_free (sysAllocLock gs)"
    using inv by (simp_all add: alloc_inv_def)
  have wtc: "\<And>c. c < 256 \<Longrightarrow> wfd (classLists_tc ?tc c)" and ceq: "cacheSize ?tc = cache_sum ?tc"
    using thr[OF t] by (simp_all add: tc_wf_def)
  have wd: "wfd ?d" using wtc c256 by simp
  have cnt: "count gs ?c = unat (size_dq (freeChunks (classLists gs ?c))) + unat (size_dq ?d)
                 + (\<Sum>t'\<in>{..<kMaxThreads} - {t}. cached gs ?c t')"
    unfolding count_split[OF t, of gs] by (simp add: cached_def)
  have bc: "count gs ?c \<le> 32 * n" using bd c256 by (simp add: bounded_def)
  then have lt: "unat (size_dq ?d) < 2 ^ 64 - 1" using cnt n by simp
  obtain d1 where pb: "push_back ?d (Some p) = Inr d1" and wd1: "wfd d1"
    and s1: "size_dq d1 = size_dq ?d + 1"
    using push_back_wfd[OF wd lt] by blast
  have u1: "unat (size_dq d1) = unat (size_dq ?d) + 1" unfolding s1 using lt by (rule unat_succ)
  let ?tc1 = "?tc\<lparr>classLists_tc := (classLists_tc ?tc)(?c := d1), cacheSize := cacheSize ?tc + ?w\<rparr>"
  let ?G1 = "wb t (?tc1, gs)"
  have cs1: "cacheSize ?tc1 = cache_sum ?tc1"
    unfolding cache_sum_upd[OF c256] by (simp add: ceq s1 algebra_simps)
  have wf1: "tc_wf ?tc1" using wtc wd1 by (simp add: tc_wf_def)
  have inv1: "alloc_inv ?G1"
    unfolding alloc_inv_def
  proof (intro conjI allI impI)
    fix k :: nat assume "k < 256"
    then show "cfl_ok k (classLists ?G1 k)" using cfl[of k] by (simp add: wb_def)
  next
    fix t' assume t': "t' < kMaxThreads"
    show "tc_wf (threadCaches ?G1 t')"
      using wf1 thr[OF t'] by (cases "t' = t") (simp_all add: wb_def)
  next
    fix t' assume t': "t' < kMaxThreads"
    show "cacheSize (threadCaches ?G1 t') = cache_sum (threadCaches ?G1 t')"
      using cs1 thr[OF t'] by (cases "t' = t") (simp_all add: wb_def)
  next
    show "mutex_free (sysAllocLock ?G1)" using sys by (simp add: wb_def)
  qed
  have bd1: "bounded (Suc n) ?G1"
    unfolding bounded_def
  proof (intro allI impI)
    fix k :: nat assume k: "k < 256"
    have bk: "count gs k \<le> 32 * n" using bd k by (simp add: bounded_def)
    show "count ?G1 k \<le> 32 * Suc n"
    proof (cases "k = ?c")
      case False
      have "count ?G1 k = count gs k"
        by (rule count_other_class) (use False in \<open>simp_all add: wb_def\<close>)
      then show ?thesis using bk by simp
    next
      case True
      have o: "(\<Sum>t'\<in>{..<kMaxThreads} - {t}. cached ?G1 ?c t')
               = (\<Sum>t'\<in>{..<kMaxThreads} - {t}. cached gs ?c t')"
        by (rule others_cong) (simp add: wb_def)
      have "count ?G1 ?c = unat (size_dq (freeChunks (classLists gs ?c))) + unat (size_dq d1)
              + (\<Sum>t'\<in>{..<kMaxThreads} - {t}. cached gs ?c t')"
        unfolding count_split[OF t, of ?G1] o by (simp add: cached_def wb_def)
      also have "\<dots> = count gs ?c + 1" unfolding cnt u1 by simp
      finally show ?thesis using bc True by simp
    qed
  qed
  have m: "32 * Suc n < (2::nat) ^ 64" using n .
  have eq: "ThreadCache_dealloc gs t p cl
      = ebind (if kMaxThreadCacheSize < cacheSize ?tc1
               then donate [1 ..< unat kMaxClasses] (?tc1, gs) else Inr (?tc1, gs))
          (\<lambda>(tc2, gs2). Inr (gs2\<lparr>threadCaches := (threadCaches gs2)(t := tc2)\<rparr>))"
    unfolding ThreadCache_dealloc_def Let_def
    by (simp only: nb if_False pb ebind_def sum.case)
  show ?thesis
  proof (cases "kMaxThreadCacheSize < cacheSize ?tc1")
    case True
    have r: "\<forall>c\<in>set [1 ..< unat kMaxClasses]. 0 < c \<and> c < 256"
      by (simp add: kMaxClasses_def)
    obtain s' where dn: "donate [1 ..< unat kMaxClasses] (?tc1, gs) = Inr s'"
      and i': "alloc_inv (wb t s')" and b': "bounded (Suc n) (wb t s')"
      using donate_ok[OF inv1 bd1 t r m] by blast
    have "ThreadCache_dealloc gs t p cl = Inr (wb t s')"
      unfolding eq by (simp only: True if_True dn ebind_def sum.case wb_def split_beta)
    then show ?thesis using i' b' by blast
  next
    case False
    have "ThreadCache_dealloc gs t p cl = Inr ?G1"
      unfolding eq by (simp only: False if_False ebind_def sum.case wb_def split_beta)
    then show ?thesis using inv1 bd1 by blast
  qed
qed

lemma tc_step_ok:
  assumes "alloc_inv gs" and "valid_op x" and "bounded n gs" and "32 * Suc n < 2 ^ 64"
  shows "\<exists>gs'. tc_step gs x = Inr gs' \<and> alloc_inv gs' \<and> bounded (Suc n) gs'"
proof (cases x)
  case (Alloc t cl)
  then have v: "t < kMaxThreads" "cl \<noteq> 0" "cl < kMaxClasses" using assms(2) by simp_all
  obtain res gs' where "ThreadCache_alloc gs t cl = Inr (res, gs')" "alloc_inv gs'"
    "bounded (Suc n) gs'"
    using ThreadCache_alloc_ok[OF assms(1) v assms(3)] by blast
  then show ?thesis using Alloc by (simp add: ebind_def)
next
  case (Dealloc t p cl)
  then have v: "t < kMaxThreads" "cl \<noteq> 0" "cl < kMaxClasses" using assms(2) by simp_all
  show ?thesis
    using ThreadCache_dealloc_ok[OF assms(1) v assms(3,4), of p] Dealloc by simp
qed

lemma run_ok:
  assumes "alloc_inv gs" and "bounded n gs" and "\<forall>x\<in>set xs. valid_op x"
    and "32 * (n + length xs) < 2 ^ 64"
  shows "\<exists>gs'. run gs xs = Inr gs' \<and> alloc_inv gs' \<and> bounded (n + length xs) gs'"
  using assms
proof (induction xs arbitrary: gs n)
  case Nil
  then show ?case by simp
next
  case (Cons x xs)
  have v: "valid_op x" and vs: "\<forall>x\<in>set xs. valid_op x" using Cons.prems(3) by simp_all
  have n1: "32 * Suc n < 2 ^ 64" using Cons.prems(4) by simp
  obtain gs1 where s: "tc_step gs x = Inr gs1" and i1: "alloc_inv gs1" and b1: "bounded (Suc n) gs1"
    using tc_step_ok[OF Cons.prems(1) v Cons.prems(2) n1] by blast
  have n2: "32 * (Suc n + length xs) < 2 ^ 64" using Cons.prems(4) by simp
  obtain gs' where "run gs1 xs = Inr gs'" "alloc_inv gs'" "bounded (Suc n + length xs) gs'"
    using Cons.IH[OF i1 b1 vs n2] by blast
  then show ?case by (simp add: s ebind_def)
qed

lemma init_class_ok:
  assumes "1 \<le> c" and "c < 256"
  shows "cfl_ok c (init_class c (\<lambda>c. zero_CentralFreeList) c)"
proof -
  let ?l = "init_class c (\<lambda>c. zero_CentralFreeList) c"
  let ?q = "32768 div (64 * c)"
  have e: "unat (elemsPerFetch ?l) = min 32 (max ?q 2)" and s: "unat (chunkSize ?l) = 64 * c"
    using epf_init[OF assms] by simp_all
  have f: "freeChunks ?l = init" and l: "lock ?l = ticket_init"
    by (simp_all add: init_class_at CentralFreeList_ctor_def zero_CentralFreeList_def)
  have "2 * (64 * c) \<le> 32768" using assms(2) by simp
  then have q2: "2 \<le> ?q" using assms(1) by (simp add: less_eq_div_iff_mult_less_eq)
  then have "unat (elemsPerFetch ?l) \<le> ?q" using e by simp
  then have "64 * c * unat (elemsPerFetch ?l) \<le> 64 * c * ?q" by (rule mult_le_mono2)
  also have "\<dots> \<le> 32768" by (rule times_div_less_eq_dividend)
  finally have p: "64 * c * unat (elemsPerFetch ?l) \<le> 32768" .
  have "2 \<le> unat (elemsPerFetch ?l)" "unat (elemsPerFetch ?l) \<le> 32" using e q2 by simp_all
  then show ?thesis
    unfolding cfl_ok_def f l using s p by (simp add: wfd_init mutex_free_def ticket_init_def)
qed

lemma zero_cfl_ok: "cfl_ok 0 zero_CentralFreeList"
  by (simp add: cfl_ok_def zero_CentralFreeList_def wfd_init mutex_free_def)

lemma boot_threads:
  assumes "\<not> initialized gs"
  shows "threadCaches (plsalloc_init sz gs) t = \<lparr>cacheSize = 0, classLists_tc = (\<lambda>c. init)\<rparr>"
    and "sysAllocLock (plsalloc_init sz gs) = ticket_init"
  using assms by (simp_all add: plsalloc_init_def Let_def ThreadCache_ctor_def)

lemma boot_inv:
  assumes "\<not> initialized gs"
  shows "alloc_inv (plsalloc_init sz gs)" and "bounded 0 (plsalloc_init sz gs)"
proof -
  let ?G = "plsalloc_init sz gs"
  have cl: "\<And>c. c < 256 \<Longrightarrow> cfl_ok c (classLists ?G c)"
  proof -
    fix c :: nat assume "c < 256"
    then show "cfl_ok c (classLists ?G c)"
      using init_class_ok[of c] zero_cfl_ok
      by (cases "c = 0") (simp_all add: classLists_init[OF assms])
  qed
  have fc: "\<And>c. size_dq (freeChunks (classLists ?G c)) = 0"
    by (simp add: classLists_init[OF assms] init_class_at CentralFreeList_ctor_def
        zero_CentralFreeList_def size_init)
  show "alloc_inv ?G"
    unfolding alloc_inv_def
    by (simp add: cl boot_threads[OF assms] tc_wf_def wfd_init cache_sum_def size_init
        mutex_free_def ticket_init_def)
  show "bounded 0 ?G"
    by (simp add: bounded_def count_def cached_def fc boot_threads[OF assms] size_init)
qed

lemma run_from_boot:
  assumes "\<not> initialized gs0" and "\<forall>x\<in>set xs. valid_op x" and "length xs < 2 ^ 58"
  shows "\<exists>gs. run (plsalloc_init sz gs0) xs = Inr gs \<and> alloc_inv gs"
proof -
  have "32 * (0 + length xs) < (2::nat) ^ 64" using assms(3) by simp
  then show ?thesis
    using run_ok[OF boot_inv[OF assms(1)] assms(2), of sz] by blast
qed

lemma ops_example_valid:
  "\<not> initialized zero_AllocState" "\<forall>x\<in>set ops_example. valid_op x" "length ops_example < 2 ^ 58"
  by (simp_all add: ops_example_def zero_AllocState_def kMaxThreads_def kMaxClasses_def)

text \<open>
  C10. Starting from the bootstrap (all deques empty), after any run of fewer
  than \<open>2^58\<close> valid thread-cache calls every call has returned: no assertion
  of \<open>splice_front\<close>, \<open>merge_front\<close> or \<open>reset\<close> fired and no null block
  was dereferenced in any \<open>bulkAlloc\<close>, \<open>bulkDealloc\<close> or donation pass; and
  every recycled deque and every thread-cache class list has \<open>phead\<close>
  divisible by 32. (The bound on the length keeps fewer than \<open>2^64\<close> chunks in
  the deques, so that their 64-bit counters do not wrap.)
\<close>

theorem deques_stay_aligned:
  assumes "\<not> initialized gs0" and "\<forall>x\<in>set xs. valid_op x" and "length xs < 2 ^ 58"
  shows "\<exists>gs. run (plsalloc_init sz gs0) xs = Inr gs
           \<and> (\<forall>c<256. aligned (phead (freeChunks (classLists gs c))))
           \<and> (\<forall>t<kMaxThreads. \<forall>c<256. aligned (phead (classLists_tc (threadCaches gs t) c)))"
proof -
  obtain gs where r: "run (plsalloc_init sz gs0) xs = Inr gs" and i: "alloc_inv gs"
    using run_from_boot[OF assms] by blast
  have "\<forall>c<256. aligned (phead (freeChunks (classLists gs c)))"
    using i by (simp add: alloc_inv_def cfl_ok_def wfd_def)
  moreover have "\<forall>t<kMaxThreads. \<forall>c<256. aligned (phead (classLists_tc (threadCaches gs t) c))"
    using i by (simp add: alloc_inv_def tc_wf_def wfd_def)
  ultimately show ?thesis using r by blast
qed

theorem deques_stay_aligned_witness:
  "\<exists>gs. run gs_boot ops_example = Inr gs
      \<and> (\<forall>c<256. aligned (phead (freeChunks (classLists gs c))))
      \<and> (\<forall>t<kMaxThreads. \<forall>c<256. aligned (phead (classLists_tc (threadCaches gs t) c)))"
  unfolding gs_boot_def by (rule deques_stay_aligned[OF ops_example_valid])

text \<open>
  C8. Starting from the bootstrap (empty thread caches), after any run of
  fewer than \<open>2^58\<close> valid \<open>ThreadCache::alloc(cl)\<close> and
  \<open>ThreadCache::dealloc(p, cl)\<close> calls, donation passes included, every
  thread cache has \<open>cacheSize = \<Sum>c. size(classLists[c]) * classToSize(c)\<close>.
\<close>

theorem cacheSize_is_sum:
  assumes "\<not> initialized gs0" and "\<forall>x\<in>set xs. valid_op x" and "length xs < 2 ^ 58"
  shows "\<exists>gs. run (plsalloc_init sz gs0) xs = Inr gs
           \<and> (\<forall>t<kMaxThreads. cacheSize (threadCaches gs t)
                 = (\<Sum>c<256. size_dq (classLists_tc (threadCaches gs t) c) * classToSize (of_nat c)))"
proof -
  obtain gs where r: "run (plsalloc_init sz gs0) xs = Inr gs" and i: "alloc_inv gs"
    using run_from_boot[OF assms] by blast
  have "\<forall>t<kMaxThreads. cacheSize (threadCaches gs t) = cache_sum (threadCaches gs t)"
    using i by (simp add: alloc_inv_def)
  then show ?thesis using r unfolding cache_sum_def by blast
qed

theorem cacheSize_is_sum_witness:
  "\<exists>gs. run gs_boot ops_example = Inr gs
      \<and> (\<forall>t<kMaxThreads. cacheSize (threadCaches gs t)
            = (\<Sum>c<256. size_dq (classLists_tc (threadCaches gs t) c) * classToSize (of_nat c)))"
  unfolding gs_boot_def by (rule cacheSize_is_sum[OF ops_example_valid])

section \<open>Properties of the large heap\<close>

























































end
